theory Spec2Isabelle
  imports Main
begin

section \<open>Python strings and integers\<close>

text \<open>
  Source text is a Python \<open>str\<close>, modelled as a \<open>string\<close>; offsets and consumed lengths are
  Python integers, modelled as \<open>int\<close>. The helpers below are the \<open>str\<close> methods the repository
  calls, with Python's treatment of slice bounds (a negative bound counts from the end, every
  bound is clamped to the string).
\<close>

abbreviation LF :: char where "LF \<equiv> CHR 0x0A"
abbreviation CR :: char where "CR \<equiv> CHR 0x0D"
abbreviation TAB :: char where "TAB \<equiv> CHR 0x09"
abbreviation SPC :: char where "SPC \<equiv> CHR 0x20"

definition py_bound :: "nat \<Rightarrow> int \<Rightarrow> nat" where
  "py_bound n i = (if i < 0 then nat (max 0 (i + int n)) else min n (nat i))"

definition py_slice :: "string \<Rightarrow> int \<Rightarrow> int \<Rightarrow> string" where
  "py_slice s a b =
     (let i = py_bound (length s) a; j = py_bound (length s) b in take (j - i) (drop i s))"

primrec find_char :: "char \<Rightarrow> string \<Rightarrow> int \<Rightarrow> int" where
  "find_char c [] k = - 1"
| "find_char c (x # xs) k = (if x = c then k else find_char c xs (k + 1))"

primrec rfind_char :: "char \<Rightarrow> string \<Rightarrow> int \<Rightarrow> int \<Rightarrow> int" where
  "rfind_char c [] k found = found"
| "rfind_char c (x # xs) k found = rfind_char c xs (k + 1) (if x = c then k else found)"

definition py_find :: "string \<Rightarrow> char \<Rightarrow> int \<Rightarrow> int" where
  \<comment> \<open>\<open>s.find(c, start)\<close>\<close>
  "py_find s c start = (let i = py_bound (length s) start in find_char c (drop i s) (int i))"

definition py_rfind :: "string \<Rightarrow> char \<Rightarrow> int \<Rightarrow> int" where
  \<comment> \<open>\<open>s.rfind(c, 0, end)\<close>\<close>
  "py_rfind s c e = rfind_char c (take (py_bound (length s) e) s) 0 (- 1)"

definition py_count :: "string \<Rightarrow> char \<Rightarrow> int \<Rightarrow> int" where
  \<comment> \<open>\<open>s.count(c, 0, end)\<close>\<close>
  "py_count s c e = int (count_list (py_slice s 0 e) c)"

definition py_replace_tab :: "string \<Rightarrow> string" where
  \<comment> \<open>\<open>s.replace("\t", "    ")\<close>\<close>
  "py_replace_tab s = concat (map (\<lambda>x. if x = TAB then ''    '' else [x]) s)"

fun str_nat :: "nat \<Rightarrow> string" where
  "str_nat n =
     (if n < 10 then [''0123456789'' ! n] else str_nat (n div 10) @ [''0123456789'' ! (n mod 10)])"

declare str_nat.simps [simp del]

definition str_int :: "int \<Rightarrow> string" where
  \<comment> \<open>\<open>str(i)\<close>, as an f-string formats an integer\<close>
  "str_int i = (if i < 0 then CHR ''-'' # str_nat (nat (- i)) else str_nat (nat i))"

definition py_pos :: "string \<Rightarrow> int \<Rightarrow> nat" where
  \<comment> \<open>the start position \<open>pattern.match(content, pos=...)\<close> really uses: \<open>pos\<close> clamped to the string\<close>
  "py_pos content pos = (if pos < 0 then 0 else min (length content) (nat pos))"


section \<open>Tokens (tokens.py)\<close>

text \<open>
  Semantic types of value tokens are Python type objects; converted values are arbitrary
  Python objects (type variable \<open>'v\<close>).
\<close>

datatype pytype = PyFloat | PyInt | PyStr | PyBool | PyClass string

datatype 'v token =
    EndOfLineToken
  | EndOfFileToken
  | ScopeStartToken
  | ScopeEndToken
  | CommentToken string
  | ValueToken pytype 'v
  | SequenceToken string

text \<open>
  The token classes define neither \<open>__eq__\<close> nor \<open>__hash__\<close>, so a dictionary keyed by tokens is
  keyed by object identity. A token object is its identity together with its content; the
  identity is the number the object received when it was constructed.
\<close>

type_synonym 'v tokobj = "nat \<times> 'v token"

datatype error =
    TokenizerError string
  | TypeError
  | IndexError
  | ZeroDivisionError
  | ConverterError string


section \<open>Position view (tokenizer.py, TokenMappingView)\<close>

text \<open>
  The view memoizes \<open>lineNumber\<close>, \<open>line\<close> and \<open>lineOffset\<close>; memoization does not change the
  values, so the properties are functions of source and offset.
\<close>

definition lineNumber :: "string \<Rightarrow> int \<Rightarrow> int" where
  "lineNumber source offset = py_count source LF offset + 1"

definition line :: "string \<Rightarrow> int \<Rightarrow> string" where
  "line source offset =
     (let left = py_rfind source LF offset + 1;
          right = py_find source LF offset
      in py_slice source left right)"

definition lineOffset :: "string \<Rightarrow> int \<Rightarrow> int" where
  "lineOffset source offset = offset - py_rfind source LF offset - 1"

definition lineMarker :: "string \<Rightarrow> int \<Rightarrow> string" where
  "lineMarker source offset =
     str_int (lineNumber source offset) @ '':'' @ str_int (lineOffset source offset) @ '': ''"

definition pointerOffset :: "string \<Rightarrow> int \<Rightarrow> int" where
  "pointerOffset source offset =
     (let tabNumber = int (count_list (line source offset) TAB)
      in lineOffset source offset + int (length (lineMarker source offset)) + tabNumber * 4 - 1)"

definition makePointer :: "string \<Rightarrow> int \<Rightarrow> string" where
  "makePointer source offset =
     lineMarker source offset @ py_replace_tab (line source offset) @ [LF]
       @ replicate (nat (pointerOffset source offset)) SPC @ ''^''"


section \<open>Regular expressions (Python's re module)\<close>

text \<open>
  The regular expressions that are fixed in the source (\<open>\r?\n\<close>, the indent pattern, the
  escaped scope delimiters) are translated into matching functions below. A regular expression
  built from text the caller supplies is matched by Python's \<open>re\<close> module, which is not part of
  the repository: it is the parameter \<open>re_match\<close>, giving for a compiled pattern, a content and
  a start position the match object (its end, its \<open>lastindex\<close>, its groups) or \<open>None\<close>. Calling a
  Python type on a text (\<open>int("12")\<close>) is the parameter \<open>type_call\<close>.
\<close>

record regex =
  pattern :: string
  flags :: nat

definition re_compile :: "string \<Rightarrow> nat \<Rightarrow> regex" where
  "re_compile p f = \<lparr>pattern = p, flags = f\<rparr>"

record rematch =
  m_end :: int
  m_lastindex :: "nat option"
  m_group :: "nat \<Rightarrow> string"

record 'v python =
  re_match :: "regex \<Rightarrow> string \<Rightarrow> int \<Rightarrow> rematch option"
  type_call :: "pytype \<Rightarrow> string \<Rightarrow> error + 'v"

definition reNewLine_match :: "string \<Rightarrow> int \<Rightarrow> int option" where
  \<comment> \<open>\<open>\r?\n\<close> anchored at \<open>pos\<close>: the end of the match\<close>
  "reNewLine_match content pos =
     (let p = py_pos content pos in
      case drop p content of
        [] \<Rightarrow> None
      | c # r \<Rightarrow>
          if c = LF then Some (int p + 1)
          else if c = CR then (case r of [] \<Rightarrow> None | d # _ \<Rightarrow> if d = LF then Some (int p + 2) else None)
          else None)"

definition reScope_match :: "string \<Rightarrow> int \<Rightarrow> (int \<times> nat) option" where
  \<comment> \<open>\<open>\n(\t+)|\n( +)|\n([^\t ])\<close> anchored at \<open>pos\<close>: the end of the match and \<open>lastindex\<close>\<close>
  "reScope_match content pos =
     (let p = py_pos content pos in
      case drop p content of
        [] \<Rightarrow> None
      | c # r \<Rightarrow>
          if c \<noteq> LF then None
          else (case r of
                  [] \<Rightarrow> None
                | d # _ \<Rightarrow>
                    if d = TAB then Some (int p + 1 + int (length (takeWhile (\<lambda>x. x = TAB) r)), 1)
                    else if d = SPC then Some (int p + 1 + int (length (takeWhile (\<lambda>x. x = SPC) r)), 2)
                    else Some (int p + 2, 3)))"

definition classic_match :: "string \<Rightarrow> string \<Rightarrow> string \<Rightarrow> int \<Rightarrow> (int \<times> nat) option" where
  \<comment> \<open>\<open>(start)|(end)\<close> with both delimiters escaped, anchored at \<open>pos\<close>\<close>
  "classic_match startCharacter endCharacter content pos =
     (let p = py_pos content pos; rest = drop p content in
      if take (length startCharacter) rest = startCharacter
        then Some (int p + int (length startCharacter), 1)
      else if take (length endCharacter) rest = endCharacter
        then Some (int p + int (length endCharacter), 2)
      else None)"


section \<open>Token processors (tokenprocessors.py)\<close>

text \<open>
  A call of \<open>process\<close> returns \<open>None\<close>, one pair (token or \<open>None\<close>, consumed length), or a
  generator of such pairs; the driving loop treats all three as a sequence of pairs, empty when
  nothing was reported. A raised exception is \<open>Inl\<close>. The argument \<open>oid\<close> is the identity the
  token object constructed by the call receives.
\<close>

type_synonym 'v pairs = "('v tokobj option \<times> int) list"

record indent_state =
  allowMixed :: bool
  level :: int
  mode :: "nat option"
  divider :: int

definition IndentScopeProcessor_init :: "bool \<Rightarrow> indent_state" where
  "IndentScopeProcessor_init am = \<lparr>allowMixed = am, level = 0, mode = None, divider = 0\<rparr>"

record 'v value_fields =
  vregex :: regex
  vtypes :: "pytype list"
  vconstructors :: "pytype \<rightharpoonup> (string \<Rightarrow> error + 'v)"

datatype 'v processor =
    NewLineProcessor
  | ClassicScopeProcessor string string
  | IndentScopeProcessor indent_state
  | CommentProcessor regex
  | ConsumingProcessor regex
  | ValueProcessor "'v value_fields"
  | SequenceProcessor regex

definition CommentProcessor_init :: "string \<Rightarrow> 'v processor" where
  "CommentProcessor_init commentCharacter = CommentProcessor (re_compile (commentCharacter @ ''(.+)'') 0)"

definition ConsumingProcessor_init :: "string \<Rightarrow> 'v processor" where
  "ConsumingProcessor_init toConsume = ConsumingProcessor (re_compile (''['' @ toConsume @ '']+'') 0)"

fun join_bar :: "string list \<Rightarrow> string" where
  "join_bar [] = []"
| "join_bar [x] = x"
| "join_bar (x # y # ys) = x @ ''|'' @ join_bar (y # ys)"

definition SequenceProcessor_init :: "string list \<Rightarrow> 'v processor" where
  "SequenceProcessor_init sequences = SequenceProcessor (re_compile (join_bar sequences) 0)"

definition or_regex :: "regex \<Rightarrow> regex \<Rightarrow> regex" where
  \<comment> \<open>the regex every \<open>__or__\<close> builds: both patterns joined by \<open>|\<close>, the left operand's flags\<close>
  "or_regex a b = re_compile (pattern a @ ''|'' @ pattern b) (flags a)"

definition indent_emit :: "indent_state \<Rightarrow> int \<Rightarrow> nat \<Rightarrow> error + ('v pairs \<times> indent_state)" where
  \<comment> \<open>lines 109 to 129 of \<open>IndentScopeProcessor.process\<close>\<close>
  "indent_emit st newLevel oid =
     (if newLevel \<noteq> level st then
        (let difference = \<bar>level st - newLevel\<bar> in
         if divider st = 0 then Inl ZeroDivisionError
         else if difference mod divider st \<noteq> 0 then
           Inl (TokenizerError (''invalid indent multiply, should be '' @ str_int (divider st)))
         else
           (let token = (oid, if newLevel > level st then ScopeStartToken else ScopeEndToken)
            in Inr (replicate (nat (difference div divider st)) (Some token, newLevel),
                    st\<lparr>level := newLevel\<rparr>)))
      else if newLevel \<noteq> 0 then
        Inr ([(None, newLevel)], if allowMixed st then st\<lparr>mode := None\<rparr> else st)
      else Inr ([], st))"

definition indent_process ::
  "indent_state \<Rightarrow> string \<Rightarrow> int \<Rightarrow> nat \<Rightarrow> error + ('v pairs \<times> indent_state)" where
  "indent_process st content offset oid =
     (case reScope_match content (offset - 1) of
        None \<Rightarrow> Inr ([], st)
      | Some (e, lastindex) \<Rightarrow>
          (let newLevel = e - offset in
           if lastindex = 3 then indent_emit st 0 oid
           else if mode st = None then
             indent_emit (st\<lparr>mode := Some lastindex, divider := newLevel\<rparr>) newLevel oid
           else if mode st \<noteq> Some lastindex then Inl (TokenizerError ''mixed indent'')
           else indent_emit st newLevel oid))"

definition indent_finalizer :: "indent_state \<Rightarrow> nat \<Rightarrow> 'v tokobj list" where
  "indent_finalizer st oid =
     (if level st > 0 then map (\<lambda>i. (oid + i, ScopeEndToken)) [0..<nat (level st)] else [])"

definition value_process ::
  "'v python \<Rightarrow> 'v value_fields \<Rightarrow> string \<Rightarrow> int \<Rightarrow> nat \<Rightarrow> error + 'v pairs" where
  "value_process py vp content offset oid =
     (case re_match py (vregex vp) content offset of
        None \<Rightarrow> Inr []
      | Some m \<Rightarrow>
          (case m_lastindex m of
             None \<Rightarrow> Inl TypeError
           | Some index \<Rightarrow>
               (let i = int index - 1;
                    n = int (length (vtypes vp));
                    j = (if i < 0 then i + n else i)
                in if \<not> (0 \<le> j \<and> j < n) then Inl IndexError
                   else
                     (let tp = vtypes vp ! nat j;
                          constructor = (case vconstructors vp tp of
                                           None \<Rightarrow> type_call py tp
                                         | Some c \<Rightarrow> c)
                      in case constructor (m_group m index) of
                           Inl err \<Rightarrow> Inl err
                         | Inr v \<Rightarrow> Inr [(Some (oid, ValueToken tp v), m_end m - offset)]))))"

fun process ::
  "'v python \<Rightarrow> 'v processor \<Rightarrow> string \<Rightarrow> int \<Rightarrow> nat \<Rightarrow> error + ('v pairs \<times> 'v processor)" where
  "process py NewLineProcessor content offset oid =
     (case reNewLine_match content offset of
        None \<Rightarrow> Inr ([], NewLineProcessor)
      | Some e \<Rightarrow> Inr ([(Some (oid, EndOfLineToken), e - offset)], NewLineProcessor))"
| "process py (ClassicScopeProcessor s e) content offset oid =
     (case classic_match s e content offset of
        None \<Rightarrow> Inr ([], ClassicScopeProcessor s e)
      | Some (en, lastindex) \<Rightarrow>
          Inr ([(Some (oid, if lastindex = 1 then ScopeStartToken else ScopeEndToken), en - offset)],
               ClassicScopeProcessor s e))"
| "process py (IndentScopeProcessor st) content offset oid =
     (case indent_process st content offset oid of
        Inl err \<Rightarrow> Inl err
      | Inr (ps, st') \<Rightarrow> Inr (ps, IndentScopeProcessor st'))"
| "process py (CommentProcessor r) content offset oid =
     (case re_match py r content offset of
        None \<Rightarrow> Inr ([], CommentProcessor r)
      | Some m \<Rightarrow> Inr ([(Some (oid, CommentToken (m_group m 1)), m_end m - offset)], CommentProcessor r))"
| "process py (ConsumingProcessor r) content offset oid =
     (case re_match py r content offset of
        None \<Rightarrow> Inr ([], ConsumingProcessor r)
      | Some m \<Rightarrow> Inr ([(None, m_end m - offset)], ConsumingProcessor r))"
| "process py (ValueProcessor vp) content offset oid =
     (case value_process py vp content offset oid of
        Inl err \<Rightarrow> Inl err
      | Inr ps \<Rightarrow> Inr (ps, ValueProcessor vp))"
| "process py (SequenceProcessor r) content offset oid =
     (case re_match py r content offset of
        None \<Rightarrow> Inr ([], SequenceProcessor r)
      | Some m \<Rightarrow> Inr ([(Some (oid, SequenceToken (m_group m 0)), m_end m - offset)], SequenceProcessor r))"

fun finalizer :: "'v processor \<Rightarrow> nat \<Rightarrow> 'v tokobj list" where
  "finalizer (IndentScopeProcessor st) oid = indent_finalizer st oid"
| "finalizer _ oid = []"


section \<open>Tokenizer result (tokenizer.py, TokenizerResult)\<close>

record 'v TokenizerResult =
  source :: "string option"
  tokens :: "'v tokobj list"
  tokenMap :: "nat \<rightharpoonup> int"

definition TokenizerResult_init :: "string \<Rightarrow> 'v TokenizerResult" where
  "TokenizerResult_init src = \<lparr>source = Some src, tokens = [], tokenMap = Map.empty\<rparr>"

definition addToken :: "'v TokenizerResult \<Rightarrow> 'v tokobj \<Rightarrow> int \<Rightarrow> 'v TokenizerResult" where
  "addToken r token offset =
     r\<lparr>tokens := tokens r @ [token], tokenMap := (tokenMap r)(fst token \<mapsto> offset)\<rparr>"

definition getTokenMapping :: "'v TokenizerResult \<Rightarrow> 'v tokobj \<Rightarrow> error + (string \<times> int) option" where
  \<comment> \<open>the view returned is the pair of source and offset, \<open>None\<close> when the token is not mapped\<close>
  "getTokenMapping r token =
     (case source r of
        None \<Rightarrow> Inl (TokenizerError ''Tried to get a Token mapping without text source!'')
      | Some src \<Rightarrow> Inr (case tokenMap r (fst token) of None \<Rightarrow> None | Some offset \<Rightarrow> Some (src, offset)))"


section \<open>The driving loop (tokenizer.py, Tokenizer.tokenize)\<close>

text \<open>The inner \<open>for token, consumed in res\<close> loop (lines 178 to 184).\<close>

fun apply_pairs :: "'v TokenizerResult \<Rightarrow> int \<Rightarrow> 'v pairs \<Rightarrow> 'v TokenizerResult \<times> int" where
  "apply_pairs r pos [] = (r, pos)"
| "apply_pairs r pos ((token, consumed) # ps) =
     apply_pairs (case token of None \<Rightarrow> r | Some t \<Rightarrow> addToken r t pos) (pos + consumed) ps"

text \<open>
  One pass of \<open>for tokenProcessor in tokenProcessors\<close> (lines 171 to 187): the processors are
  asked in order at the same \<open>pos\<close>; the first one that reports at least one pair ends the
  pass. The result is the reported pairs (empty when no processor reported any) and the
  processors with their states after the calls made. Object identities come from a counter:
  every call of \<open>process\<close> is given a number no earlier call was given.
\<close>

fun run_round ::
  "'v python \<Rightarrow> string \<Rightarrow> int \<Rightarrow> nat \<Rightarrow> 'v processor list
     \<Rightarrow> error + ('v pairs \<times> 'v processor list \<times> nat)" where
  "run_round py src pos oid [] = Inr ([], [], oid)"
| "run_round py src pos oid (p # ps) =
     (case process py p src pos oid of
        Inl err \<Rightarrow> Inl err
      | Inr (pairs, p') \<Rightarrow>
          if pairs \<noteq> [] then Inr (pairs, p' # ps, Suc oid)
          else (case run_round py src pos (Suc oid) ps of
                  Inl err \<Rightarrow> Inl err
                | Inr (pairs', ps', oid') \<Rightarrow> Inr (pairs', p' # ps', oid')))"

record 'v tstate =
  t_pos :: int
  t_result :: "'v TokenizerResult"
  t_procs :: "'v processor list"
  t_next :: nat

text \<open>
  The \<open>while processed\<close> loop. Nothing in the source bounds the number of its iterations, so
  the model takes fuel: \<open>None\<close> means that the fuel ran out before the loop ended.
\<close>

fun tokenize_loop :: "nat \<Rightarrow> 'v python \<Rightarrow> string \<Rightarrow> 'v tstate \<Rightarrow> (error + 'v tstate) option" where
  "tokenize_loop 0 py src st = None"
| "tokenize_loop (Suc n) py src st =
     (case run_round py src (t_pos st) (t_next st) (t_procs st) of
        Inl err \<Rightarrow> Some (Inl err)
      | Inr (pairs, ps', oid') \<Rightarrow>
          (case apply_pairs (t_result st) (t_pos st) pairs of
             (r', pos') \<Rightarrow>
               (let st' = \<lparr>t_pos = pos', t_result = r', t_procs = ps', t_next = oid'\<rparr>
                in if pairs = [] then Some (Inr st') else tokenize_loop n py src st')))"

fun run_finalizers ::
  "'v TokenizerResult \<Rightarrow> int \<Rightarrow> nat \<Rightarrow> 'v processor list \<Rightarrow> 'v TokenizerResult \<times> nat" where
  "run_finalizers r sourceLength oid [] = (r, oid)"
| "run_finalizers r sourceLength oid (p # ps) =
     (let toks = finalizer p oid
      in run_finalizers (foldl (\<lambda>r' t. addToken r' t sourceLength) r toks) sourceLength
           (oid + length toks) ps)"

definition tokenize_init :: "'v processor list \<Rightarrow> string \<Rightarrow> 'v tstate" where
  "tokenize_init tokenProcessors src =
     \<lparr>t_pos = 0, t_result = TokenizerResult_init src, t_procs = tokenProcessors, t_next = 0\<rparr>"

definition tokenize ::
  "nat \<Rightarrow> 'v python \<Rightarrow> 'v processor list \<Rightarrow> string \<Rightarrow> (error + 'v TokenizerResult) option" where
  "tokenize fuel py tokenProcessors src =
     (case tokenize_loop fuel py src (tokenize_init tokenProcessors src) of
        None \<Rightarrow> None
      | Some (Inl err) \<Rightarrow> Some (Inl err)
      | Some (Inr st) \<Rightarrow>
          (let sourceLength = int (length src) in
           if t_pos st \<noteq> sourceLength then
             Some (Inl (TokenizerError (''Unable to tokenize:'' @ [LF] @ makePointer src (t_pos st))))
           else
             (case run_finalizers (t_result st) sourceLength (t_next st) (t_procs st) of
                (r, oid) \<Rightarrow> Some (Inr (addToken r (oid, EndOfFileToken) sourceLength)))))"

text \<open>A stand-in for the two Python parameters where no processor consults them.\<close>

definition no_python :: "unit python" where
  "no_python = \<lparr>re_match = (\<lambda>r c p. None), type_call = (\<lambda>t s. Inl TypeError)\<rparr>"


section \<open>Value processors as objects (tokenprocessors.py, ValueProcessor)\<close>

text \<open>
  \<open>ValueProcessor.__or__\<close> makes a shallow copy of its left operand and then extends and updates
  the list and the dictionary the copy still shares with it. To follow the sharing, the list of
  semantic types and the dictionary of constructors live in a store and a processor object
  holds their addresses. \<open>deref\<close> reads the fields \<open>process\<close> uses.
\<close>

type_synonym addr = nat

record 'v heap =
  h_lists :: "addr \<Rightarrow> pytype list"
  h_dicts :: "addr \<Rightarrow> (pytype \<rightharpoonup> (string \<Rightarrow> error + 'v))"
  h_next :: addr

record vobj =
  o_regex :: regex
  o_types :: addr
  o_constructors :: addr

definition wrap_group :: "string \<Rightarrow> string" where
  "wrap_group expression = (if CHR ''('' \<in> set expression then expression else ''('' @ expression @ '')'')"

definition ValueProcessor_init ::
  "'v heap \<Rightarrow> (string \<times> pytype) list \<Rightarrow> addr option \<Rightarrow> 'v heap \<times> vobj" where
  "ValueProcessor_init h valueExpressions constructors =
     (let ta = h_next h;
          h1 = h\<lparr>h_lists := (h_lists h)(ta := map snd valueExpressions), h_next := Suc ta\<rparr>;
          (ca, h2) = (case constructors of
                        None \<Rightarrow> (h_next h1, h1\<lparr>h_dicts := (h_dicts h1)(h_next h1 := Map.empty),
                                                 h_next := Suc (h_next h1)\<rparr>)
                      | Some a \<Rightarrow> (a, h1));
          regexBuild = map (\<lambda>(expression, tp). wrap_group expression) valueExpressions
      in (h2, \<lparr>o_regex = re_compile (join_bar regexBuild) 0, o_types = ta, o_constructors = ca\<rparr>))"

definition ValueProcessor_or :: "'v heap \<Rightarrow> vobj \<Rightarrow> vobj \<Rightarrow> 'v heap \<times> vobj" where
  "ValueProcessor_or h self other =
     (let newObj = self\<lparr>o_regex := or_regex (o_regex self) (o_regex other)\<rparr>;
          h1 = h\<lparr>h_lists := (h_lists h)(o_types newObj :=
                     h_lists h (o_types newObj) @ h_lists h (o_types other))\<rparr>;
          h2 = h1\<lparr>h_dicts := (h_dicts h1)(o_constructors newObj :=
                     h_dicts h1 (o_constructors newObj) ++ h_dicts h1 (o_constructors other))\<rparr>
      in (h2, newObj))"

definition deref :: "'v heap \<Rightarrow> vobj \<Rightarrow> 'v value_fields" where
  "deref h obj = \<lparr>vregex = o_regex obj, vtypes = h_lists h (o_types obj),
                  vconstructors = h_dicts h (o_constructors obj)\<rparr>"

definition ValueProcessor_process ::
  "'v python \<Rightarrow> 'v heap \<Rightarrow> vobj \<Rightarrow> string \<Rightarrow> int \<Rightarrow> nat \<Rightarrow> error + 'v pairs" where
  "ValueProcessor_process py h obj content offset oid = value_process py (deref h obj) content offset oid"

definition merged_pattern :: "vobj \<Rightarrow> vobj \<Rightarrow> vobj \<Rightarrow> regex" where
  "merged_pattern A B C = re_compile (pattern (o_regex A) @ ''|'' @ pattern (o_regex B) @ ''|'' @ pattern (o_regex C)) (flags (o_regex A))"


section \<open>Predicates used in the statements\<close>

text \<open>
  A compiled pattern finds only non-empty matches inside the content when every match the
  \<open>re\<close> module reports for it ends after the start position and not after the end of the content.
  A processor is advancing when it is a newline processor, a classic scope processor with two
  non-empty delimiters, an indent processor whose divider is not negative (it is 0 when the
  processor is constructed and the length of an indent afterwards), or a processor whose
  pattern finds only non-empty matches.
\<close>

definition nonempty_matches :: "'v python \<Rightarrow> regex \<Rightarrow> bool" where
  "nonempty_matches py r \<longleftrightarrow>
     (\<forall>content pos m. re_match py r content pos = Some m \<longrightarrow> pos < m_end m \<and> m_end m \<le> int (length content))"

fun advancing :: "'v python \<Rightarrow> 'v processor \<Rightarrow> bool" where
  "advancing py NewLineProcessor = True"
| "advancing py (ClassicScopeProcessor s e) = (s \<noteq> [] \<and> e \<noteq> [])"
| "advancing py (IndentScopeProcessor st) = (0 \<le> divider st)"
| "advancing py (CommentProcessor r) = nonempty_matches py r"
| "advancing py (ConsumingProcessor r) = nonempty_matches py r"
| "advancing py (ValueProcessor vp) = nonempty_matches py (vregex vp)"
| "advancing py (SequenceProcessor r) = nonempty_matches py r"

fun open_indent :: "'v processor \<Rightarrow> nat" where
  "open_indent (IndentScopeProcessor st) = (if level st \<noteq> 0 then 1 else 0)"
| "open_indent _ = 0"

definition open_scopes :: "'v processor list \<Rightarrow> nat" where
  "open_scopes ps = sum_list (map open_indent ps)"


text \<open>
  What the \<open>re\<close> module guarantees for \<open>pattern.match(content, pos)\<close>: a start position beyond
  either end of the content is treated as that end, and a match lies between the start
  position really used and the end of the content.
\<close>

definition re_conforms :: "'v python \<Rightarrow> bool" where
  "re_conforms py \<longleftrightarrow>
     (\<forall>r content pos.
        re_match py r content pos = re_match py r content (int (py_pos content pos))
        \<and> (\<forall>m. re_match py r content pos = Some m
               \<longrightarrow> int (py_pos content pos) \<le> m_end m \<and> m_end m \<le> int (length content)))"

text \<open>
  The consumed spans of a run, as pairs of start offset and length: every pair of a step
  spans from the running \<open>pos\<close> over its consumed length. \<open>consumed_spans\<close> collects them along the
  rounds of the driving loop.
\<close>

fun pair_spans :: "int \<Rightarrow> 'v pairs \<Rightarrow> (int \<times> int) list" where
  "pair_spans pos [] = []"
| "pair_spans pos ((token, consumed) # ps) = (pos, consumed) # pair_spans (pos + consumed) ps"

fun consumed_spans :: "nat \<Rightarrow> 'v python \<Rightarrow> string \<Rightarrow> 'v tstate \<Rightarrow> (int \<times> int) list" where
  "consumed_spans 0 py src st = []"
| "consumed_spans (Suc n) py src st =
     (case run_round py src (t_pos st) (t_next st) (t_procs st) of
        Inl err \<Rightarrow> []
      | Inr (pairs, ps', oid') \<Rightarrow>
          (case apply_pairs (t_result st) (t_pos st) pairs of
             (r', pos') \<Rightarrow>
               if pairs = [] then []
               else pair_spans (t_pos st) pairs
                      @ consumed_spans n py src \<lparr>t_pos = pos', t_result = r', t_procs = ps', t_next = oid'\<rparr>))"

text \<open>
  Spans are chained from \<open>a\<close> to \<open>b\<close> when the first starts at \<open>a\<close>, each starts where the
  one before ends and the last ends at \<open>b\<close>. They partition the offsets from \<open>a\<close> to \<open>b\<close> when,
  in addition, none has a negative length. \<open>covering sp k\<close> are the spans that contain offset
  \<open>k\<close>.
\<close>

fun chained :: "int \<Rightarrow> (int \<times> int) list \<Rightarrow> int \<Rightarrow> bool" where
  "chained a [] b = (a = b)"
| "chained a ((s, c) # sp) b = (s = a \<and> chained (a + c) sp b)"

fun partitions :: "int \<Rightarrow> (int \<times> int) list \<Rightarrow> int \<Rightarrow> bool" where
  "partitions a [] b = (a = b)"
| "partitions a ((s, c) # sp) b = (s = a \<and> 0 \<le> c \<and> partitions (a + c) sp b)"

definition covering :: "(int \<times> int) list \<Rightarrow> int \<Rightarrow> (int \<times> int) list" where
  "covering sp k = filter (\<lambda>(s, c). s \<le> k \<and> k < s + c) sp"

text \<open>A processor that reports a match of length 0 at the end of the source.\<close>

fun matches_at_end :: "'v python \<Rightarrow> string \<Rightarrow> 'v processor \<Rightarrow> bool" where
  "matches_at_end py src NewLineProcessor = False"
| "matches_at_end py src (ClassicScopeProcessor s e) = (s = [] \<or> e = [])"
| "matches_at_end py src (IndentScopeProcessor st) = False"
| "matches_at_end py src (CommentProcessor r) = (re_match py r src (int (length src)) \<noteq> None)"
| "matches_at_end py src (ConsumingProcessor r) = (re_match py r src (int (length src)) \<noteq> None)"
| "matches_at_end py src (ValueProcessor vp) = (re_match py (vregex vp) src (int (length src)) \<noteq> None)"
| "matches_at_end py src (SequenceProcessor r) = (re_match py r src (int (length src)) \<noteq> None)"

text \<open>
  The state of the driving loop after \<open>k\<close> rounds in which a processor reported pairs (\<open>None\<close>
  when the loop ends or fails earlier), and the relation between a configured processor and
  the same processor later in the run: only the state of an indent processor changes.
\<close>

fun loop_state :: "nat \<Rightarrow> 'v python \<Rightarrow> string \<Rightarrow> 'v tstate \<Rightarrow> 'v tstate option" where
  "loop_state 0 py src st = Some st"
| "loop_state (Suc k) py src st =
     (case run_round py src (t_pos st) (t_next st) (t_procs st) of
        Inl err \<Rightarrow> None
      | Inr (pairs, ps', oid') \<Rightarrow>
          (case apply_pairs (t_result st) (t_pos st) pairs of
             (r', pos') \<Rightarrow>
               if pairs = [] then None
               else loop_state k py src \<lparr>t_pos = pos', t_result = r', t_procs = ps', t_next = oid'\<rparr>))"

fun same_processor :: "'v processor \<Rightarrow> 'v processor \<Rightarrow> bool" where
  "same_processor (IndentScopeProcessor a) (IndentScopeProcessor b) = (allowMixed a = allowMixed b)"
| "same_processor p q = (p = q)"

text \<open>
  An instance of the two Python parameters for examples: whatever the pattern, a match is a
  non-empty run of the letter \<open>x\<close>, as for the pattern \<open>[x]+\<close>.
\<close>

definition x_python :: "unit python" where
  "x_python =
     \<lparr>re_match = (\<lambda>r content pos.
          let p = py_pos content pos;
              n = length (takeWhile (\<lambda>c. c = CHR ''x'') (drop p content))
          in if n = 0 then None
             else Some \<lparr>m_end = int p + int n, m_lastindex = None,
                        m_group = (\<lambda>i. take n (drop p content))\<rparr>),
      type_call = (\<lambda>t s. Inl TypeError)\<rparr>"


text \<open>
  What the specification says about the caret of the rendered pointer: its column is the
  token's line offset, adjusted by the expanded width of the tabs that precede the token in its
  line (a tab takes 4 columns instead of 1), plus the width of the \<open>line:column: \<close> prefix.
\<close>

definition claimed_caret_column :: "string \<Rightarrow> int \<Rightarrow> int" where
  "claimed_caret_column src offset =
     (let tabs_before = int (count_list (take (nat (lineOffset src offset)) (line src offset)) TAB)
      in lineOffset src offset + 3 * tabs_before + int (length (lineMarker src offset)))"


section \<open>Evaluation\<close>

lemmas run_defs = eval_nat_numeral tokenize_def tokenize_init_def TokenizerResult_init_def
  addToken_def indent_process_def indent_emit_def reScope_match_def reNewLine_match_def py_pos_def
  IndentScopeProcessor_init_def indent_finalizer_def upt_rec Let_def


section \<open>Fuel\<close>

text \<open>Once the loop has ended within some fuel, more fuel gives the same result.\<close>

lemma tokenize_loop_more_fuel:
  "tokenize_loop n py src st = Some res \<Longrightarrow> tokenize_loop (n + k) py src st = Some res"
proof (induction n arbitrary: st)
  case 0
  then show ?case by simp
next
  case (Suc n)
  show ?case
  proof (cases "run_round py src (t_pos st) (t_next st) (t_procs st)")
    case (Inl err)
    then show ?thesis using Suc.prems by simp
  next
    case (Inr a)
    obtain pairs ps' oid' where a: "a = (pairs, ps', oid')" by (cases a)
    obtain r' pos' where ap: "apply_pairs (t_result st) (t_pos st) pairs = (r', pos')"
      by (cases "apply_pairs (t_result st) (t_pos st) pairs")
    show ?thesis
    proof (cases "pairs = []")
      case True
      then show ?thesis using Suc.prems Inr a ap by simp
    next
      case False
      then have "tokenize_loop n py src \<lparr>t_pos = pos', t_result = r', t_procs = ps', t_next = oid'\<rparr> = Some res"
        using Suc.prems Inr a ap by simp
      from Suc.IH[OF this] show ?thesis using Inr a ap False by simp
    qed
  qed
qed

lemma tokenize_more_fuel:
  "tokenize n py procs src = Some res \<Longrightarrow> tokenize (n + k) py procs src = Some res"
proof -
  assume a: "tokenize n py procs src = Some res"
  then obtain lr where l: "tokenize_loop n py src (tokenize_init procs src) = Some lr"
    by (auto simp: tokenize_def split: option.splits)
  from tokenize_loop_more_fuel[OF l, of k] a l show ?thesis
    by (simp add: tokenize_def)
qed


section \<open>Bounds of the fixed patterns\<close>

lemma drop_Cons_length: "drop p xs = c # r \<Longrightarrow> length xs = p + 1 + length r"
proof -
  assume a: "drop p xs = c # r"
  have "length (drop p xs) = length xs - p" by simp
  with a have "length xs - p = Suc (length r)" by simp
  then show ?thesis by simp
qed

lemma reScope_bounds:
  assumes "reScope_match content pos = Some (e, li)"
  shows "int (py_pos content pos) + 2 \<le> e \<and> e \<le> int (length content) \<and> (li = 1 \<or> li = 2 \<or> li = 3)
     \<and> (li = 3 \<longrightarrow> e = int (py_pos content pos) + 2)"
proof -
  obtain c r where d: "drop (py_pos content pos) content = c # r"
    using assms by (auto simp: reScope_match_def Let_def split: list.splits)
  then obtain d r' where r: "r = d # r'"
    using assms by (auto simp: reScope_match_def Let_def split: list.splits if_splits)
  have len: "length content = py_pos content pos + 1 + length r" using d by (rule drop_Cons_length)
  have tw: "\<And>P. length (takeWhile P r) \<le> length r" by (rule length_takeWhile_le)
  show ?thesis
    using assms d r len tw[of "\<lambda>x. x = TAB"] tw[of "\<lambda>x. x = SPC"]
    by (auto simp: reScope_match_def Let_def split: if_splits)
qed

lemma reNewLine_bounds:
  assumes "reNewLine_match content pos = Some e"
  shows "int (py_pos content pos) < e \<and> e \<le> int (length content)"
proof -
  obtain c r where d: "drop (py_pos content pos) content = c # r"
    using assms by (auto simp: reNewLine_match_def Let_def split: list.splits)
  have len: "length content = py_pos content pos + 1 + length r" using d by (rule drop_Cons_length)
  show ?thesis using assms d len
    by (auto simp: reNewLine_match_def Let_def split: if_splits list.splits)
qed

lemma take_prefix_fits:
  assumes "take (length x) (drop p content) = x" "p \<le> length content"
  shows "int p + int (length x) \<le> int (length content)"
proof -
  have "length (take (length x) (drop p content)) = length x" using assms(1) by simp
  then have "length x \<le> length content - p" by simp
  with assms(2) show ?thesis by linarith
qed

lemma classic_bounds:
  assumes "classic_match s e content pos = Some (en, li)" "s \<noteq> []" "e \<noteq> []"
  shows "int (py_pos content pos) < en \<and> en \<le> int (length content)"
proof -
  have p: "py_pos content pos \<le> length content" by (simp add: py_pos_def)
  show ?thesis
  proof (cases "take (length s) (drop (py_pos content pos) content) = s")
    case True
    then have "en = int (py_pos content pos) + int (length s)"
      using assms(1) by (simp add: classic_match_def Let_def)
    with take_prefix_fits[OF True p] assms(2) show ?thesis by simp
  next
    case False
    then have t: "take (length e) (drop (py_pos content pos) content) = e"
      and "en = int (py_pos content pos) + int (length e)"
      using assms(1) by (auto simp: classic_match_def Let_def split: if_splits)
    with take_prefix_fits[OF t p] assms(3) show ?thesis by simp
  qed
qed

lemma py_pos_le: "int (py_pos content pos) < e \<Longrightarrow> e \<le> int (length content) \<Longrightarrow> pos < e \<and> pos < int (length content)"
  by (auto simp: py_pos_def split: if_splits)


lemma reScope_newLevel:
  assumes "reScope_match content (offset - 1) = Some (e, li)"
  shows "1 \<le> e - offset"
  using reScope_bounds[OF assms] by (auto simp: py_pos_def split: if_splits)

lemma indent_emit_not_mixed: "(indent_emit st n oid :: error + ('v pairs \<times> indent_state)) \<noteq> Inl (TokenizerError ''mixed indent'')"
  by (auto simp: indent_emit_def Let_def)

lemma indent_emit_facts:
  assumes "indent_emit st newLevel oid = Inr (ps, st')" "0 \<le> divider st" "0 \<le> newLevel"
  shows "divider st' = divider st \<and> (ps = [] \<longrightarrow> st' = st)
       \<and> (\<forall>(t, c) \<in> set ps. c = newLevel)
       \<and> (newLevel \<noteq> 0 \<longrightarrow> ps \<noteq> [])
       \<and> (ps \<noteq> [] \<and> newLevel = 0 \<longrightarrow> level st \<noteq> 0 \<and> level st' = 0)"
proof (cases "newLevel = level st")
  case True
  then show ?thesis using assms by (auto simp: indent_emit_def split: if_splits)
next
  case False
  then have dz: "divider st \<noteq> 0" and dm: "\<bar>level st - newLevel\<bar> mod divider st = 0"
    using assms(1) by (auto simp: indent_emit_def Let_def split: if_splits)
  have dp: "0 < divider st" using dz assms(2) by simp
  have "0 < \<bar>level st - newLevel\<bar>" using False by simp
  then have "divider st \<le> \<bar>level st - newLevel\<bar>"
    using dm dp by (metis zmod_trivial_iff not_le less_le)
  then have cnt: "0 < \<bar>level st - newLevel\<bar> div divider st"
    using dp by (simp add: pos_imp_zdiv_pos_iff)
  show ?thesis using assms(1) False dz dm cnt
    by (auto simp: indent_emit_def Let_def split: if_splits)
qed


lemma indent_process_facts:
  assumes "indent_process st content offset oid = Inr (ps, st')" "0 \<le> divider st"
  shows "0 \<le> divider st' \<and> (ps = [] \<longrightarrow> st' = st)
       \<and> (ps \<noteq> [] \<longrightarrow> (\<forall>(t, c) \<in> set ps. 0 < c) \<and> offset < int (length content)
                   \<or> (\<forall>(t, c) \<in> set ps. c = 0) \<and> level st \<noteq> 0 \<and> level st' = 0)"
proof (cases "reScope_match content (offset - 1)")
  case None
  then show ?thesis using assms by (simp add: indent_process_def)
next
  case (Some a)
  obtain e li where a: "a = (e, li)" by (cases a)
  note b = reScope_bounds[OF Some[unfolded a]]
  have nl: "1 \<le> e - offset" and off: "offset < int (length content)"
    using b by (auto simp: py_pos_def split: if_splits)
  show ?thesis
  proof (cases "li = 3")
    case True
    then have em: "indent_emit st 0 oid = Inr (ps, st')"
      using assms(1) Some a by (simp add: indent_process_def)
    from indent_emit_facts[OF em assms(2)] show ?thesis using assms(2) by auto
  next
    case False
    show ?thesis
    proof (cases "mode st")
      case None
      then have em: "indent_emit (st\<lparr>mode := Some li, divider := e - offset\<rparr>) (e - offset) oid = Inr (ps, st')"
        using assms(1) Some a False by (simp add: indent_process_def Let_def)
      from indent_emit_facts[OF em] nl off show ?thesis by auto
    next
      case (Some k)
      then have em: "indent_emit st (e - offset) oid = Inr (ps, st')"
        using assms(1) \<open>reScope_match content (offset - 1) = Some a\<close> a False
        by (simp add: indent_process_def Let_def split: if_splits)
      from indent_emit_facts[OF em assms(2)] nl off assms(2) show ?thesis by auto
    qed
  qed
qed


lemma regex_pair_facts:
  assumes "nonempty_matches py r" "re_match py r content offset = Some m"
  shows "0 < m_end m - offset \<and> offset < int (length content)"
  using assms unfolding nonempty_matches_def by fastforce

lemma process_facts:
  assumes "process py p content offset oid = Inr (ps, p')" "advancing py p"
  shows "advancing py p' \<and> (ps = [] \<longrightarrow> p' = p)
       \<and> (ps \<noteq> [] \<longrightarrow> (\<forall>(t, c) \<in> set ps. 0 < c) \<and> offset < int (length content)
                   \<or> (\<forall>(t, c) \<in> set ps. c = 0) \<and> open_indent p' < open_indent p)"
proof (cases p)
  case NewLineProcessor
  show ?thesis
  proof (cases "reNewLine_match content offset")
    case None
    then show ?thesis using assms NewLineProcessor by auto
  next
    case (Some e)
    from py_pos_le[OF reNewLine_bounds[OF Some, THEN conjunct1] reNewLine_bounds[OF Some, THEN conjunct2]]
    show ?thesis using assms NewLineProcessor Some by auto
  qed
next
  case (ClassicScopeProcessor s e)
  show ?thesis
  proof (cases "classic_match s e content offset")
    case None
    then show ?thesis using assms ClassicScopeProcessor by auto
  next
    case (Some a)
    obtain en li where a: "a = (en, li)" by (cases a)
    have ne: "s \<noteq> []" "e \<noteq> []" using assms(2) ClassicScopeProcessor by auto
    note b = classic_bounds[OF Some[unfolded a] ne]
    from py_pos_le[OF b[THEN conjunct1] b[THEN conjunct2]]
    show ?thesis using assms ClassicScopeProcessor Some a by auto
  qed
next
  case (IndentScopeProcessor st)
  then obtain st' where ip: "indent_process st content offset oid = Inr (ps, st')" and p': "p' = IndentScopeProcessor st'"
    using assms(1) by (auto split: sum.splits)
  have d: "0 \<le> divider st" using assms(2) IndentScopeProcessor by simp
  from indent_process_facts[OF ip d] show ?thesis
    unfolding IndentScopeProcessor p' by auto
next
  case (CommentProcessor r)
  show ?thesis
  proof (cases "re_match py r content offset")
    case None
    then show ?thesis using assms CommentProcessor by auto
  next
    case (Some m)
    have "nonempty_matches py r" using assms(2) CommentProcessor by simp
    from regex_pair_facts[OF this Some] show ?thesis using assms CommentProcessor Some by auto
  qed
next
  case (ConsumingProcessor r)
  show ?thesis
  proof (cases "re_match py r content offset")
    case None
    then show ?thesis using assms ConsumingProcessor by auto
  next
    case (Some m)
    have "nonempty_matches py r" using assms(2) ConsumingProcessor by simp
    from regex_pair_facts[OF this Some] show ?thesis using assms ConsumingProcessor Some by auto
  qed
next
  case (ValueProcessor vp)
  then have vp: "value_process py vp content offset oid = Inr ps" and p': "p' = p"
    using assms(1) by (auto split: sum.splits)
  show ?thesis
  proof (cases "re_match py (vregex vp) content offset")
    case None
    then show ?thesis using vp p' assms(2) by (auto simp: value_process_def)
  next
    case (Some m)
    have "nonempty_matches py (vregex vp)" using assms(2) ValueProcessor by simp
    from regex_pair_facts[OF this Some] show ?thesis using vp p' assms(2) Some
      by (auto simp: value_process_def Let_def split: option.splits if_splits sum.splits)
  qed
next
  case (SequenceProcessor r)
  show ?thesis
  proof (cases "re_match py r content offset")
    case None
    then show ?thesis using assms SequenceProcessor by auto
  next
    case (Some m)
    have "nonempty_matches py r" using assms(2) SequenceProcessor by simp
    from regex_pair_facts[OF this Some] show ?thesis using assms SequenceProcessor Some by auto
  qed
qed


lemma run_round_facts:
  assumes "run_round py src pos oid procs = Inr (pairs, procs', oid')" "list_all (advancing py) procs"
  shows "list_all (advancing py) procs' \<and> (pairs = [] \<longrightarrow> procs' = procs)
       \<and> (pairs \<noteq> [] \<longrightarrow> (\<forall>(t, c) \<in> set pairs. 0 < c) \<and> pos < int (length src)
                   \<or> (\<forall>(t, c) \<in> set pairs. c = 0) \<and> open_scopes procs' < open_scopes procs)"
  using assms
proof (induction procs arbitrary: oid pairs procs' oid')
  case Nil
  then show ?case by simp
next
  case (Cons p ps)
  from Cons.prems(1) obtain prs p' where pr: "process py p src pos oid = Inr (prs, p')"
    by (auto split: sum.splits)
  have adv: "advancing py p" and advs: "list_all (advancing py) ps" using Cons.prems(2) by auto
  note pf = process_facts[OF pr adv]
  show ?case
  proof (cases "prs = []")
    case True
    with Cons.prems(1) pr obtain ps' where
      rr: "run_round py src pos (Suc oid) ps = Inr (pairs, ps', oid')" and eq: "procs' = p' # ps'"
      by (auto split: sum.splits)
    have p': "p' = p" using pf True by simp
    from Cons.IH[OF rr advs] show ?thesis
      using eq p' adv by (auto simp: open_scopes_def)
  next
    case False
    with Cons.prems(1) pr have eq: "pairs = prs" "procs' = p' # ps" by auto
    show ?thesis using pf False advs unfolding eq by (auto simp: open_scopes_def)
  qed
qed

lemma apply_pairs_pos: "snd (apply_pairs r pos pairs) = pos + sum_list (map snd pairs)"
  by (induction pairs arbitrary: r pos) auto

lemma sum_list_pos:
  "pairs \<noteq> [] \<Longrightarrow> \<forall>(t, c) \<in> set pairs. (0::int) < c \<Longrightarrow> 0 < sum_list (map snd pairs)"
proof (induction pairs)
  case Nil
  then show ?case by simp
next
  case (Cons a ps)
  show ?case
  proof (cases "ps = []")
    case True
    then show ?thesis using Cons.prems by auto
  next
    case False
    then have "0 < sum_list (map snd ps)" using Cons by auto
    moreover have "0 < snd a" using Cons.prems by auto
    ultimately show ?thesis by simp
  qed
qed

lemma sum_list_zero:
  "\<forall>(t, c) \<in> set pairs. c = (0::int) \<Longrightarrow> sum_list (map snd pairs) = 0"
  by (induction pairs) auto

lemma round_variant:
  assumes "run_round py src pos oid procs = Inr (pairs, procs', oid')" "list_all (advancing py) procs"
    "pairs \<noteq> []"
  shows "pos < snd (apply_pairs r pos pairs) \<and> pos < int (length src)
       \<or> snd (apply_pairs r pos pairs) = pos \<and> open_scopes procs' < open_scopes procs"
  using run_round_facts[OF assms(1,2)] assms(3) sum_list_pos[OF assms(3)] sum_list_zero[of pairs]
  by (auto simp: apply_pairs_pos)

lemma tokenize_loop_terminates:
  assumes "list_all (advancing py) (t_procs st)"
  shows "\<exists>fuel res. tokenize_loop fuel py src st = Some res"
proof -
  have "wf (inv_image (less_than <*lex*> less_than)
              (\<lambda>st :: 'a tstate. (nat (int (length src) - t_pos st), open_scopes (t_procs st))))"
    by (intro wf_inv_image wf_lex_prod wf_less_than)
  then show ?thesis using assms
  proof (induction st rule: wf_induct_rule)
    case (less st)
    show ?case
    proof (cases "run_round py src (t_pos st) (t_next st) (t_procs st)")
      case (Inl err)
      then have "tokenize_loop (Suc 0) py src st = Some (Inl err)" by simp
      then show ?thesis by blast
    next
      case (Inr a)
      obtain pairs ps' oid' where a: "a = (pairs, ps', oid')" by (cases a)
      obtain r' pos' where ap: "apply_pairs (t_result st) (t_pos st) pairs = (r', pos')"
        by (cases "apply_pairs (t_result st) (t_pos st) pairs")
      define st' where "st' = \<lparr>t_pos = pos', t_result = r', t_procs = ps', t_next = oid'\<rparr>"
      show ?thesis
      proof (cases "pairs = []")
        case True
        then have "tokenize_loop (Suc 0) py src st = Some (Inr st')"
          using Inr a ap by (simp add: st'_def)
        then show ?thesis by blast
      next
        case False
        note rf = run_round_facts[OF Inr[unfolded a] less.prems]
        have adv': "list_all (advancing py) (t_procs st')" using rf by (simp add: st'_def)
        from round_variant[OF Inr[unfolded a] less.prems False, of "t_result st"] ap
        have "t_pos st < pos' \<and> t_pos st < int (length src)
              \<or> pos' = t_pos st \<and> open_scopes ps' < open_scopes (t_procs st)" by simp
        then have "(st', st) \<in> inv_image (less_than <*lex*> less_than)
              (\<lambda>st :: 'a tstate. (nat (int (length src) - t_pos st), open_scopes (t_procs st)))"
          by (auto simp: st'_def)
        from less.IH[OF this adv'] obtain fuel res where "tokenize_loop fuel py src st' = Some res"
          by blast
        then have "tokenize_loop (Suc fuel) py src st = Some res"
          using Inr a ap False by (simp add: st'_def)
        then show ?thesis by blast
      qed
    qed
  qed
qed

lemma tokenize_terminates:
  assumes "list_all (advancing py) procs"
  shows "\<exists>fuel res. tokenize fuel py procs src = Some res"
proof -
  have "list_all (advancing py) (t_procs (tokenize_init procs src))"
    using assms by (simp add: tokenize_init_def)
  from tokenize_loop_terminates[OF this] obtain fuel res
    where "tokenize_loop fuel py src (tokenize_init procs src) = Some res" by blast
  then show ?thesis
    by (cases res) (auto simp: tokenize_def Let_def split: prod.splits intro!: exI[of _ fuel])
qed


section \<open>Token identities and the position mapping\<close>

text \<open>
  C4. Claim: every token of the result's sequence has an entry of its own in the position
  mapping; the number of entries equals the length of the sequence and each entry records the
  token's own emission offset.

  \<open>IndentScopeProcessor.process\<close> constructs one token object before its loop and yields that
  object once per indent unit (its finalizer constructs a new object per yield). On the input
  below (a line indented by one space, then a line indented by three) the sequence has 9 tokens, the fourth and the fifth are the same object, the mapping has
  8 entries and the entry of that object is 6, the offset of its second emission, not 3.
\<close>

theorem tokenMap_entry_shared:
  "\<exists>r. tokenize 6 no_python [NewLineProcessor, IndentScopeProcessor (IndentScopeProcessor_init False)]
          [LF, SPC, LF, SPC, SPC, SPC, CHR ''?'', CHR ''?'', CHR ''?''] = Some (Inr r)
     \<and> length (tokens r) = 9
     \<and> tokens r ! 3 = (5, ScopeStartToken) \<and> tokens r ! 4 = (5, ScopeStartToken)
     \<and> tokenMap r 5 = Some 6
     \<and> dom (tokenMap r) = {0, 2, 3, 5, 8, 9, 10, 11} \<and> card (dom (tokenMap r)) = 8"
  by (auto simp add: run_defs)


section \<open>Indent balance\<close>

text \<open>
  C5. Claim: over a run of the indent processor, its \<open>process\<close> calls plus its finalizer, as many
  scope-start as scope-end tokens are emitted.

  \<open>process\<close> emits one token per indent unit (the difference of depths divided by the
  divider); the finalizer emits one scope-end token per character of depth. With a two-space
  indent, one scope-start token is emitted and the finalizer closes it with two scope-end
  tokens.
\<close>

theorem indent_finalizer_unbalanced:
  "(indent_process (IndentScopeProcessor_init False) [LF, SPC, SPC, CHR ''x''] 1 0
      :: error + (unit pairs \<times> indent_state))
     = Inr ([(Some (0, ScopeStartToken), 2)],
            \<lparr>allowMixed = False, level = 2, mode = Some 2, divider = 2\<rparr>)
   \<and> (indent_finalizer \<lparr>allowMixed = False, level = 2, mode = Some 2, divider = 2\<rparr> 1
        :: unit tokobj list)
     = [(1, ScopeEndToken), (2, ScopeEndToken)]"
  by code_simp


section \<open>The rendered pointer\<close>

text \<open>
  C8. Claim: the caret of the rendered pointer lands under the token's start; its column is
  \<open>claimed_caret_column\<close>.

  \<open>makePointer\<close> counts every tab of the line, adds 4 columns per tab and subtracts 1. For the
  second character of the line \<open>ab\<close> the rendering puts the caret in column 5, under \<open>a\<close>;
  the token is in column 6.
\<close>

theorem makePointer_caret_left_of_token:
  "makePointer [CHR ''a'', CHR ''b'', LF] 1 = ''1:1: ab'' @ [LF] @ ''     ^''
   \<and> pointerOffset [CHR ''a'', CHR ''b'', LF] 1 = 5
   \<and> claimed_caret_column [CHR ''a'', CHR ''b'', LF] 1 = 6"
  by code_simp


section \<open>Merging value processors\<close>

text \<open>
  C10. Merging two value processors with \<open>|\<close> returns a copy that shares the left operand's
  list of semantic types and its dictionary of constructors. The merge extends the shared list
  by the right operand's types and updates the shared dictionary with the right operand's
  constructors, so afterwards the left operand's dictionary contains the right operand's
  entries; the left operand keeps its own compiled pattern.
\<close>

theorem ValueProcessor_or_shares_left:
  "(case ValueProcessor_or h A B of
      (h', N) \<Rightarrow>
        o_types N = o_types A \<and> o_constructors N = o_constructors A
      \<and> o_regex N = re_compile (pattern (o_regex A) @ ''|'' @ pattern (o_regex B)) (flags (o_regex A))
      \<and> deref h' A =
          \<lparr>vregex = o_regex A,
           vtypes = h_lists h (o_types A) @ h_lists h (o_types B),
           vconstructors = h_dicts h (o_constructors A) ++ h_dicts h (o_constructors B)\<rparr>
      \<and> h_dicts h (o_constructors B) \<subseteq>\<^sub>m h_dicts h' (o_constructors A)
      \<and> deref h' N = (deref h' A)\<lparr>vregex := o_regex N\<rparr>)"
  by (simp add: ValueProcessor_or_def Let_def deref_def or_regex_def)

text \<open>
  C7. For all value processors \<open>A\<close>, \<open>B\<close>, \<open>C\<close>, the merges \<open>(A | B) | C\<close> and \<open>A | (B | C)\<close> classify
  every content and offset identically.

  Both merges are built from the same three objects, in either order of evaluation; the
  second one is built in the store the first one left. Both results have the pattern
  \<open>A|B|C\<close> with the flags of \<open>A\<close>, and both share the list and the dictionary of \<open>A\<close>; so
  \<open>process\<close> gives the same result for both (the same match, and with it the same semantic
  type, the same converted value and the same consumed length, or the same error), whatever
  the \<open>re\<close> module does with the pattern.
\<close>

theorem ValueProcessor_or_assoc:
  fixes h :: "'v heap"
  shows "(case ValueProcessor_or h A B of (h1, AB) \<Rightarrow>
          case ValueProcessor_or h1 AB C of (h2, X) \<Rightarrow>
          case ValueProcessor_or h2 B C of (h3, BC) \<Rightarrow>
          case ValueProcessor_or h3 A BC of (h4, Y) \<Rightarrow>
            o_regex X = merged_pattern A B C \<and> o_regex Y = merged_pattern A B C \<and>
            ValueProcessor_process py h4 X content offset oid
              = ValueProcessor_process py h4 Y content offset oid)
       \<and> (case ValueProcessor_or h B C of (h1, BC) \<Rightarrow>
          case ValueProcessor_or h1 A BC of (h2, Y) \<Rightarrow>
          case ValueProcessor_or h2 A B of (h3, AB) \<Rightarrow>
          case ValueProcessor_or h3 AB C of (h4, X) \<Rightarrow>
            o_regex X = merged_pattern A B C \<and> o_regex Y = merged_pattern A B C \<and>
            ValueProcessor_process py h4 X content offset oid
              = ValueProcessor_process py h4 Y content offset oid)"
  by (simp add: ValueProcessor_or_def Let_def ValueProcessor_process_def deref_def or_regex_def
      re_compile_def merged_pattern_def)

text \<open>
  When each merge is built from the original store and the three operands share neither their
  lists nor their dictionaries, the two results read the same fields as well.
\<close>

lemma merge_unshared_same_fields:
  fixes h :: "'v heap"
  assumes "distinct [o_types A, o_types B, o_types C]"
    and "distinct [o_constructors A, o_constructors B, o_constructors C]"
  shows "(case ValueProcessor_or h A B of (h1, AB) \<Rightarrow>
          case ValueProcessor_or h1 AB C of (hX, X) \<Rightarrow>
          case ValueProcessor_or h B C of (h3, BC) \<Rightarrow>
          case ValueProcessor_or h3 A BC of (hY, Y) \<Rightarrow>
            deref hX X = deref hY Y)"
  using assms
  by (simp add: ValueProcessor_or_def Let_def deref_def or_regex_def re_compile_def)


section \<open>Offsets recorded within one step\<close>

lemma apply_pairs_untouched:
  "\<forall>(t, c) \<in> set pairs. map_option fst t \<noteq> Some k
     \<Longrightarrow> tokenMap (fst (apply_pairs r pos pairs)) k = tokenMap r k"
  by (induction pairs arbitrary: r pos) (auto simp: addToken_def split: option.splits)

lemma apply_pairs_tokens:
  "tokens (fst (apply_pairs r pos pairs)) = tokens r @ List.map_filter fst pairs"
  by (induction pairs arbitrary: r pos) (auto simp: addToken_def List.map_filter_simps split: option.splits)

lemma apply_pairs_record:
  assumes "i < length pairs" "fst (pairs ! i) = Some t"
    "\<forall>j. i < j \<and> j < length pairs \<longrightarrow> map_option fst (fst (pairs ! j)) \<noteq> Some (fst t)"
  shows "tokenMap (fst (apply_pairs r pos pairs)) (fst t) = Some (pos + sum_list (map snd (take i pairs)))"
  using assms
proof (induction pairs arbitrary: r pos i)
  case Nil
  then show ?case by simp
next
  case (Cons a ps)
  obtain tk c where a: "a = (tk, c)" by (cases a)
  show ?case
  proof (cases i)
    case 0
    then have tk: "tk = Some t" using Cons.prems(2) a by simp
    have "map_option fst t' \<noteq> Some (fst t)" if m: "(t', c') \<in> set ps" for t' c'
    proof -
      from m obtain j where j: "j < length ps" "ps ! j = (t', c')" by (auto simp: in_set_conv_nth)
      from Cons.prems(3)[rule_format, of "Suc j"] 0 j show ?thesis by simp
    qed
    then have "\<forall>(t', c') \<in> set ps. map_option fst t' \<noteq> Some (fst t)" by blast
    from apply_pairs_untouched[OF this] show ?thesis
      using 0 a tk by (simp add: addToken_def)
  next
    case (Suc i')
    have 1: "i' < length ps" using Cons.prems(1) Suc by simp
    have 2: "fst (ps ! i') = Some t" using Cons.prems(2) Suc by simp
    have 3: "\<forall>j. i' < j \<and> j < length ps \<longrightarrow> map_option fst (fst (ps ! j)) \<noteq> Some (fst t)"
    proof (intro allI impI)
      fix j assume "i' < j \<and> j < length ps"
      with Cons.prems(3)[rule_format, of "Suc j"] Suc
      show "map_option fst (fst (ps ! j)) \<noteq> Some (fst t)" by simp
    qed
    from Cons.IH[OF 1 2 3] show ?thesis using Suc a by (simp add: add.assoc)
  qed
qed

text \<open>
  C3, as stated: when one step emits several pairs, every token of the step is recorded at the
  offset \<open>pos\<close> had at the start of the round. This fails: the loop adds the consumed length to
  \<open>pos\<close> after every pair. In the run on the input of C4 the indent step at offset 3 emits two
  pairs of consumed length 3, and the token is recorded at 6.
\<close>

theorem anchor_offset_counterexample: "(indent_process \<lparr>allowMixed = False, level = 1, mode = Some 2, divider = 1\<rparr>
       [LF, SPC, LF, SPC, SPC, SPC, CHR ''?'', CHR ''?'', CHR ''?''] 3 5 :: error + (unit pairs \<times> indent_state))
     = Inr ([(Some (5, ScopeStartToken), 3), (Some (5, ScopeStartToken), 3)], \<lparr>allowMixed = False, level = 3, mode = Some 2, divider = 1\<rparr>)
   \<and> tokenMap (fst (apply_pairs (TokenizerResult_init [LF, SPC, LF, SPC, SPC, SPC, CHR ''?'', CHR ''?'', CHR ''?''] :: unit TokenizerResult) 3
         [(Some (5, ScopeStartToken), 3), (Some (5, ScopeStartToken), 3)])) 5 = Some 6"
  by (simp add: run_defs)

text \<open>
  C3, amended: every non-absent token of a step is recorded at the running offset, that is the
  offset \<open>pos\<close> had at the start of the round plus the consumed lengths of the pairs before it in
  the step (when the same token object is emitted again later in the step, the later record
  replaces the earlier one); the tokens are appended in the order of the pairs and \<open>pos\<close> ends
  at the start offset plus all consumed lengths.
\<close>

theorem apply_pairs_running_offset:
  "(i < length pairs \<and> fst (pairs ! i) = Some t
      \<and> (\<forall>j. i < j \<and> j < length pairs \<longrightarrow> map_option fst (fst (pairs ! j)) \<noteq> Some (fst t))
     \<longrightarrow> tokenMap (fst (apply_pairs r pos pairs)) (fst t)
           = Some (pos + sum_list (map snd (take i pairs))))
   \<and> tokens (fst (apply_pairs r pos pairs)) = tokens r @ List.map_filter fst pairs
   \<and> snd (apply_pairs r pos pairs) = pos + sum_list (map snd pairs)"
  using apply_pairs_record[of i pairs t r pos] apply_pairs_tokens[of r pos pairs] apply_pairs_pos[of r pos pairs]
  by blast

theorem apply_pairs_running_offset_witness:
  "tokenMap (fst (apply_pairs (TokenizerResult_init [LF, SPC, LF, SPC, SPC, SPC] :: unit TokenizerResult) 3
       [(Some (5, ScopeStartToken), 3), (Some (5, ScopeStartToken), 3)])) 5 = Some (3 + 3)
   \<and> tokens (fst (apply_pairs (TokenizerResult_init [LF, SPC, LF, SPC, SPC, SPC] :: unit TokenizerResult) 3
       [(Some (5, ScopeStartToken), 3), (Some (5, ScopeStartToken), 3)]))
      = [(5, ScopeStartToken), (5, ScopeStartToken)]
   \<and> snd (apply_pairs (TokenizerResult_init [LF, SPC, LF, SPC, SPC, SPC] :: unit TokenizerResult) 3
       [(Some (5, ScopeStartToken), 3), (Some (5, ScopeStartToken), 3)]) = 9"
  using apply_pairs_running_offset[of 1 "[(Some (5, ScopeStartToken), 3), (Some (5, ScopeStartToken), 3)]"
      "(5, ScopeStartToken)" "TokenizerResult_init [LF, SPC, LF, SPC, SPC, SPC] :: unit TokenizerResult" 3]
  by (simp add: TokenizerResult_init_def List.map_filter_simps)


section \<open>The indent unit lock\<close>

lemma locked_other_kind_raises:
  "reScope_match content (offset - 1) = Some (e, li) \<Longrightarrow> li \<noteq> 3 \<Longrightarrow> mode st = Some k \<Longrightarrow> k \<noteq> li
     \<Longrightarrow> (indent_process st content offset oid :: error + ('v pairs \<times> indent_state))
           = Inl (TokenizerError ''mixed indent'')"
  by (auto simp: indent_process_def Let_def)

lemma deeper_line_after_release_raises:
  assumes "reScope_match content (offset - 1) = Some (e, li)" "li \<noteq> 3" "mode st = None"
    "0 < level st" "level st < e - offset"
  shows "(indent_process st content offset oid :: error + ('v pairs \<times> indent_state))
           = Inl (TokenizerError (''invalid indent multiply, should be '' @ str_int (e - offset)))"
proof -
  have "\<bar>level st - (e - offset)\<bar> = (e - offset) - level st" using assms(5) by simp
  moreover have "((e - offset) - level st) mod (e - offset) = (e - offset) - level st"
  proof (rule mod_pos_pos_trivial)
    show "0 \<le> e - offset - level st" using assms(5) by simp
    show "e - offset - level st < e - offset" using assms(4) by simp
  qed
  ultimately have "\<bar>level st - (e - offset)\<bar> mod (e - offset) \<noteq> 0" using assms(4,5) by simp
  then show ?thesis using assms
    by (simp add: indent_process_def indent_emit_def Let_def)
qed

text \<open>
  C6. Claim: with a locked unit, a match of the other character kind fails with a mixed-indent
  error unless the processor was configured to tolerate mixing; then any line of unchanged
  nonzero depth releases the lock, so that the next line that changes the depth may establish
  either kind without error.

  The processor documents \<open>allowMixed\<close> as allowing tabs and spaces in the same content, but
  the check of the character kind comes before the release and does not read \<open>allowMixed\<close>: a
  tolerant processor locked to tabs at depth 1 raises the mixed-indent error on a line
  indented by one space (first two equations). The release also makes the next indent the new
  divider, so that after it every deeper line is rejected: on a content indented with tabs
  only, the tolerant processor releases the lock at the second line and fails at the third,
  which the strict processor accepts (last three equations).
\<close>

theorem allowMixed_rejects_mixing:
  "(indent_process (IndentScopeProcessor_init True) [LF, TAB, CHR ''x'', LF, SPC, CHR ''y''] 1 0
      :: error + (unit pairs \<times> indent_state))
     = Inr ([(Some (0, ScopeStartToken), 1)], \<lparr>allowMixed = True, level = 1, mode = Some 1, divider = 1\<rparr>)
   \<and> (indent_process \<lparr>allowMixed = True, level = 1, mode = Some 1, divider = 1\<rparr>
        [LF, TAB, CHR ''x'', LF, SPC, CHR ''y''] 4 1 :: error + (unit pairs \<times> indent_state))
     = Inl (TokenizerError ''mixed indent'')
   \<and> (indent_process \<lparr>allowMixed = True, level = 1, mode = Some 1, divider = 1\<rparr>
        [LF, TAB, CHR ''x'', LF, TAB, CHR ''y'', LF, TAB, TAB, CHR ''z''] 4 1
          :: error + (unit pairs \<times> indent_state))
     = Inr ([(None, 1)], \<lparr>allowMixed = True, level = 1, mode = None, divider = 1\<rparr>)
   \<and> (indent_process \<lparr>allowMixed = True, level = 1, mode = None, divider = 1\<rparr>
        [LF, TAB, CHR ''x'', LF, TAB, CHR ''y'', LF, TAB, TAB, CHR ''z''] 7 2
          :: error + (unit pairs \<times> indent_state))
     = Inl (TokenizerError ''invalid indent multiply, should be 2'')
   \<and> (indent_process \<lparr>allowMixed = False, level = 1, mode = Some 1, divider = 1\<rparr>
        [LF, TAB, CHR ''x'', LF, TAB, CHR ''y'', LF, TAB, TAB, CHR ''z''] 7 2
          :: error + (unit pairs \<times> indent_state))
     = Inr ([(Some (2, ScopeStartToken), 2)], \<lparr>allowMixed = False, level = 2, mode = Some 1, divider = 1\<rparr>)"
  by code_simp


section \<open>How failures are reported\<close>

lemma same_processor_refl: "same_processor p p"
  by (cases p) auto

lemma same_processor_trans: "same_processor p q \<Longrightarrow> same_processor q r \<Longrightarrow> same_processor p r"
  by (cases p; cases q; cases r) auto

lemma indent_emit_allowMixed:
  "(indent_emit st n oid :: error + ('v pairs \<times> indent_state)) = Inr (ps, st') \<Longrightarrow> allowMixed st' = allowMixed st"
  by (auto simp: indent_emit_def Let_def split: if_splits)

lemma indent_process_allowMixed:
  "(indent_process st content offset oid :: error + ('v pairs \<times> indent_state)) = Inr (ps, st')
     \<Longrightarrow> allowMixed st' = allowMixed st"
  by (auto simp: indent_process_def Let_def split: option.splits if_splits dest!: indent_emit_allowMixed)

lemma process_same_processor:
  "process py p content offset oid = Inr (pairs, p') \<Longrightarrow> same_processor p p'"
  by (cases p) (auto split: option.splits sum.splits prod.splits dest: indent_process_allowMixed)

lemma list_all2_same_refl: "list_all2 same_processor ps ps"
  by (simp add: list_all2_refl same_processor_refl)

lemma run_round_same_processor:
  "run_round py src pos oid procs = Inr (pairs, procs', oid') \<Longrightarrow> list_all2 same_processor procs procs'"
proof (induction procs arbitrary: oid pairs procs' oid')
  case Nil
  then show ?case by simp
next
  case (Cons p ps)
  from Cons.prems obtain prs p' where pr: "process py p src pos oid = Inr (prs, p')"
    by (auto split: sum.splits)
  note sp = process_same_processor[OF pr]
  show ?case
  proof (cases "prs = []")
    case True
    with Cons.prems pr obtain ps' where
      rr: "run_round py src pos (Suc oid) ps = Inr (pairs, ps', oid')" and eq: "procs' = p' # ps'"
      by (auto split: sum.splits)
    from Cons.IH[OF rr] sp eq show ?thesis by simp
  next
    case False
    with Cons.prems pr have "procs' = p' # ps" by auto
    with sp show ?thesis by (simp add: list_all2_same_refl)
  qed
qed

lemma list_all2_same_trans:
  "list_all2 same_processor a b \<Longrightarrow> list_all2 same_processor b c \<Longrightarrow> list_all2 same_processor a c"
  by (rule list_all2_trans[of same_processor same_processor same_processor]) (auto intro: same_processor_trans)

lemma loop_state_same_processor:
  "loop_state k py src st = Some st' \<Longrightarrow> list_all2 same_processor (t_procs st) (t_procs st')"
proof (induction k arbitrary: st)
  case 0
  then show ?case by (simp add: list_all2_same_refl)
next
  case (Suc k)
  from Suc.prems obtain pairs ps' oid' where
    rr: "run_round py src (t_pos st) (t_next st) (t_procs st) = Inr (pairs, ps', oid')"
    by (auto split: sum.splits)
  obtain r' pos' where ap: "apply_pairs (t_result st) (t_pos st) pairs = (r', pos')"
    by (cases "apply_pairs (t_result st) (t_pos st) pairs")
  let ?st1 = "\<lparr>t_pos = pos', t_result = r', t_procs = ps', t_next = oid'\<rparr>"
  have "loop_state k py src ?st1 = Some st'" using Suc.prems rr ap by (auto split: if_splits)
  from Suc.IH[OF this] run_round_same_processor[OF rr] show ?case
    by (auto intro: list_all2_same_trans)
qed

lemma loop_state_fuel:
  "loop_state k py src st = Some st' \<Longrightarrow> tokenize_loop (k + n) py src st = tokenize_loop n py src st'"
proof (induction k arbitrary: st)
  case 0
  then show ?case by simp
next
  case (Suc k)
  from Suc.prems obtain pairs ps' oid' where
    rr: "run_round py src (t_pos st) (t_next st) (t_procs st) = Inr (pairs, ps', oid')"
    by (auto split: sum.splits)
  obtain r' pos' where ap: "apply_pairs (t_result st) (t_pos st) pairs = (r', pos')"
    by (cases "apply_pairs (t_result st) (t_pos st) pairs")
  let ?st1 = "\<lparr>t_pos = pos', t_result = r', t_procs = ps', t_next = oid'\<rparr>"
  have ne: "pairs \<noteq> []" and ls: "loop_state k py src ?st1 = Some st'"
    using Suc.prems rr ap by (auto split: if_splits)
  from Suc.IH[OF ls] show ?case using rr ap ne by simp
qed

lemma loop_last_round:
  "tokenize_loop fuel py src st = Some res \<Longrightarrow>
     \<exists>k st'. k < fuel \<and> loop_state k py src st = Some st'
       \<and> (case res of
             Inl err \<Rightarrow> run_round py src (t_pos st') (t_next st') (t_procs st') = Inl err
           | Inr stf \<Rightarrow> t_pos stf = t_pos st'
               \<and> (\<exists>ps' oid'. run_round py src (t_pos st') (t_next st') (t_procs st') = Inr ([], ps', oid')))"
proof (induction fuel arbitrary: st)
  case 0
  then show ?case by simp
next
  case (Suc n)
  show ?case
  proof (cases "run_round py src (t_pos st) (t_next st) (t_procs st)")
    case (Inl err)
    then have "res = Inl err" using Suc.prems by simp
    with Inl show ?thesis by (intro exI[of _ 0] exI[of _ st]) simp
  next
    case (Inr a)
    obtain pairs ps' oid' where a: "a = (pairs, ps', oid')" by (cases a)
    obtain r' pos' where ap: "apply_pairs (t_result st) (t_pos st) pairs = (r', pos')"
      by (cases "apply_pairs (t_result st) (t_pos st) pairs")
    let ?st1 = "\<lparr>t_pos = pos', t_result = r', t_procs = ps', t_next = oid'\<rparr>"
    show ?thesis
    proof (cases "pairs = []")
      case True
      then have "res = Inr ?st1" and "pos' = t_pos st" using Suc.prems Inr a ap by auto
      with Inr a True show ?thesis by (intro exI[of _ 0] exI[of _ st]) simp
    next
      case False
      then have "tokenize_loop n py src ?st1 = Some res" using Suc.prems Inr a ap by simp
      from Suc.IH[OF this] obtain k st' where k: "k < n" "loop_state k py src ?st1 = Some st'"
        and c: "(case res of
             Inl err \<Rightarrow> run_round py src (t_pos st') (t_next st') (t_procs st') = Inl err
           | Inr stf \<Rightarrow> t_pos stf = t_pos st'
               \<and> (\<exists>ps' oid'. run_round py src (t_pos st') (t_next st') (t_procs st') = Inr ([], ps', oid')))"
        by blast
      have "loop_state (Suc k) py src st = Some st'" using k(2) Inr a ap False by simp
      with k(1) c show ?thesis by (intro exI[of _ "Suc k"] exI[of _ st']) simp
    qed
  qed
qed

lemma run_round_raiser:
  "run_round py src pos oid ps = Inl err \<Longrightarrow>
     \<exists>i < length ps. process py (ps ! i) src pos (oid + i) = Inl err
        \<and> (\<forall>j < i. \<exists>q. process py (ps ! j) src pos (oid + j) = Inr ([], q))"
proof (induction ps arbitrary: oid)
  case Nil
  then show ?case by simp
next
  case (Cons p ps)
  show ?case
  proof (cases "process py p src pos oid")
    case (Inl e)
    then have "e = err" using Cons.prems by simp
    with Inl show ?thesis by (intro exI[of _ 0]) simp
  next
    case (Inr a)
    obtain prs p' where a: "a = (prs, p')" by (cases a)
    have e: "prs = []" and rr: "run_round py src pos (Suc oid) ps = Inl err"
      using Cons.prems Inr a by (auto split: if_splits sum.splits)
    from Cons.IH[OF rr] obtain i where i: "i < length ps"
      "process py (ps ! i) src pos (Suc oid + i) = Inl err"
      "\<forall>j < i. \<exists>q. process py (ps ! j) src pos (Suc oid + j) = Inr ([], q)" by blast
    have "\<forall>j < Suc i. \<exists>q. process py ((p # ps) ! j) src pos (oid + j) = Inr ([], q)"
    proof (intro allI impI)
      fix j assume "j < Suc i"
      then show "\<exists>q. process py ((p # ps) ! j) src pos (oid + j) = Inr ([], q)"
        using i(3) Inr a e by (cases j) auto
    qed
    with i(1,2) show ?thesis by (intro exI[of _ "Suc i"]) simp
  qed
qed

lemma run_round_raises:
  "i < length ps \<Longrightarrow> process py (ps ! i) src pos (oid + i) = Inl err
     \<Longrightarrow> \<forall>j < i. \<exists>q. process py (ps ! j) src pos (oid + j) = Inr ([], q)
     \<Longrightarrow> run_round py src pos oid ps = Inl err"
proof (induction ps arbitrary: oid i)
  case Nil
  then show ?case by simp
next
  case (Cons p ps)
  show ?case
  proof (cases i)
    case 0
    then show ?thesis using Cons.prems(2) by simp
  next
    case (Suc i')
    from Cons.prems(3) Suc obtain q where q: "process py p src pos oid = Inr ([], q)"
      by (metis add.right_neutral nth_Cons_0 zero_less_Suc)
    have 1: "i' < length ps" using Cons.prems(1) Suc by simp
    have 2: "process py (ps ! i') src pos (Suc oid + i') = Inl err" using Cons.prems(2) Suc by simp
    have 3: "\<forall>j < i'. \<exists>q. process py (ps ! j) src pos (Suc oid + j) = Inr ([], q)"
    proof (intro allI impI)
      fix j assume "j < i'"
      then have "Suc j < i" using Suc by simp
      from Cons.prems(3)[rule_format, OF this]
      show "\<exists>q. process py (ps ! j) src pos (Suc oid + j) = Inr ([], q)" by simp
    qed
    from Cons.IH[OF 1 2 3] q show ?thesis by simp
  qed
qed

lemma run_round_raises_iff:
  "run_round py src pos oid ps = Inl err
     \<longleftrightarrow> (\<exists>i < length ps. process py (ps ! i) src pos (oid + i) = Inl err
              \<and> (\<forall>j < i. \<exists>q. process py (ps ! j) src pos (oid + j) = Inr ([], q)))"
  using run_round_raiser[of py src pos oid ps err] run_round_raises[of _ ps py src pos oid err]
  by blast

lemma indent_emit_error:
  "(indent_emit st n oid :: error + ('v pairs \<times> indent_state)) = Inl err \<Longrightarrow>
     err = ZeroDivisionError \<and> divider st = 0
   \<or> err = TokenizerError (''invalid indent multiply, should be '' @ str_int (divider st))"
  by (auto simp: indent_emit_def Let_def split: if_splits)

lemma indent_process_error:
  assumes "(indent_process st content offset oid :: error + ('v pairs \<times> indent_state)) = Inl err"
    "divider st \<noteq> 0 \<or> level st = 0 \<and> mode st = None"
  shows "err = TokenizerError ''mixed indent''
       \<or> (\<exists>d. err = TokenizerError (''invalid indent multiply, should be '' @ str_int d))"
proof (cases "reScope_match content (offset - 1)")
  case None
  then show ?thesis using assms by (simp add: indent_process_def)
next
  case (Some a)
  obtain e li where a: "a = (e, li)" by (cases a)
  have nl: "1 \<le> e - offset" using reScope_newLevel Some a by simp
  show ?thesis
  proof (cases "li = 3")
    case True
    then have "(indent_emit st 0 oid :: error + ('v pairs \<times> indent_state)) = Inl err" using assms(1) Some a by (simp add: indent_process_def)
    then show ?thesis using assms(2) by (auto simp: indent_emit_def Let_def split: if_splits)
  next
    case False
    show ?thesis
    proof (cases "mode st")
      case None
      then have "(indent_emit (st\<lparr>mode := Some li, divider := e - offset\<rparr>) (e - offset) oid :: error + ('v pairs \<times> indent_state)) = Inl err"
        using assms(1) Some a False by (simp add: indent_process_def Let_def)
      from indent_emit_error[OF this] nl show ?thesis by auto
    next
      case (Some k)
      show ?thesis
      proof (cases "k = li")
        case True
        then have "(indent_emit st (e - offset) oid :: error + ('v pairs \<times> indent_state)) = Inl err"
          using assms(1) \<open>reScope_match content (offset - 1) = Some a\<close> a False Some
          by (simp add: indent_process_def Let_def)
        from indent_emit_error[OF this] assms(2) Some show ?thesis by auto
      next
        case False
        then show ?thesis
          using assms(1) \<open>reScope_match content (offset - 1) = Some a\<close> a \<open>li \<noteq> 3\<close> Some
          by (simp add: indent_process_def Let_def)
      qed
    qed
  qed
qed

text \<open>
  C9, as stated: every failure of \<open>tokenize\<close>, also a semantic error raised by a processor, is
  reported as an error carrying a rendered pointer to the offending position. This fails: an
  error raised inside \<open>process\<close> leaves \<open>tokenize\<close> as it is. The mixed indent at offset 3 of
  the input below is reported with the message \<open>mixed indent\<close> alone; the pointer for that
  offset is not part of it.
\<close>

theorem processor_error_counterexample: "tokenize 5 no_python [NewLineProcessor, IndentScopeProcessor (IndentScopeProcessor_init False)]
     [LF, TAB, LF, SPC] = Some (Inl (TokenizerError ''mixed indent''))
   \<and> makePointer [LF, TAB, LF, SPC] 3 = ''3:0: '' @ [LF] @ ''    ^''"
proof
  show "tokenize 5 no_python [NewLineProcessor, IndentScopeProcessor (IndentScopeProcessor_init False)]
     [LF, TAB, LF, SPC] = Some (Inl (TokenizerError ''mixed indent''))"
    by (simp add: run_defs)
  show "makePointer [LF, TAB, LF, SPC] 3 = ''3:0: '' @ [LF] @ ''    ^''"
    by code_simp
qed

text \<open>
  C9, amended: a failure of \<open>tokenize\<close> arises in a round the loop reaches, with the configured
  processors in their current states, in one of two ways. Either no processor reports a pair
  at an offset other than the length of the source: the error is a \<open>TokenizerError\<close> whose
  message is \<open>Unable to tokenize:\<close>, a newline and the rendered pointer for that offset. Or a
  \<open>process\<close> call of that round raises, after the processors before it reported nothing: the
  error of \<open>tokenize\<close> is the error that call raised, unchanged. Conversely, each of the two
  events makes \<open>tokenize\<close> fail with that error. The semantic errors of the indent processor
  are \<open>TokenizerError\<close>s with the message \<open>mixed indent\<close> or
  \<open>invalid indent multiply, should be N\<close>, without a pointer.
\<close>

theorem tokenize_failure_report:
  "(tokenize fuel py procs src = Some (Inl err)
      \<longrightarrow> (\<exists>k st. k < fuel \<and> loop_state k py src (tokenize_init procs src) = Some st
              \<and> list_all2 same_processor procs (t_procs st)
              \<and> (run_round py src (t_pos st) (t_next st) (t_procs st) = Inl err
                  \<or> (\<exists>ps' oid'. run_round py src (t_pos st) (t_next st) (t_procs st) = Inr ([], ps', oid'))
                    \<and> t_pos st \<noteq> int (length src)
                    \<and> err = TokenizerError (''Unable to tokenize:'' @ [LF] @ makePointer src (t_pos st)))))
   \<and> (run_round py src pos oid ps = Inl err
      \<longleftrightarrow> (\<exists>i < length ps. process py (ps ! i) src pos (oid + i) = Inl err
              \<and> (\<forall>j < i. \<exists>q. process py (ps ! j) src pos (oid + j) = Inr ([], q))))
   \<and> (k < fuel \<and> loop_state k py src (tokenize_init procs src) = Some st
        \<and> run_round py src (t_pos st) (t_next st) (t_procs st) = Inl err
      \<longrightarrow> tokenize fuel py procs src = Some (Inl err))
   \<and> (k < fuel \<and> loop_state k py src (tokenize_init procs src) = Some st
        \<and> run_round py src (t_pos st) (t_next st) (t_procs st) = Inr ([], ps', oid')
        \<and> t_pos st \<noteq> int (length src)
      \<longrightarrow> tokenize fuel py procs src
            = Some (Inl (TokenizerError (''Unable to tokenize:'' @ [LF] @ makePointer src (t_pos st)))))
   \<and> ((process py (IndentScopeProcessor ist) content offset oid :: error + ('v pairs \<times> 'v processor)) = Inl err
        \<and> (divider ist \<noteq> 0 \<or> level ist = 0 \<and> mode ist = None)
      \<longrightarrow> err = TokenizerError ''mixed indent''
          \<or> (\<exists>d. err = TokenizerError (''invalid indent multiply, should be '' @ str_int d)))"
proof (intro conjI impI)
  assume a: "tokenize fuel py procs src = Some (Inl err)"
  then obtain res where l: "tokenize_loop fuel py src (tokenize_init procs src) = Some res"
    by (auto simp: tokenize_def split: option.splits)
  from loop_last_round[OF l] obtain k st where k: "k < fuel"
    "loop_state k py src (tokenize_init procs src) = Some st"
    and c: "(case res of
             Inl err \<Rightarrow> run_round py src (t_pos st) (t_next st) (t_procs st) = Inl err
           | Inr stf \<Rightarrow> t_pos stf = t_pos st
               \<and> (\<exists>ps' oid'. run_round py src (t_pos st) (t_next st) (t_procs st) = Inr ([], ps', oid')))"
    by blast
  have sp: "list_all2 same_processor procs (t_procs st)"
    using loop_state_same_processor[OF k(2)] by (simp add: tokenize_init_def)
  have "run_round py src (t_pos st) (t_next st) (t_procs st) = Inl err
        \<or> (\<exists>ps' oid'. run_round py src (t_pos st) (t_next st) (t_procs st) = Inr ([], ps', oid'))
          \<and> t_pos st \<noteq> int (length src)
          \<and> err = TokenizerError (''Unable to tokenize:'' @ [LF] @ makePointer src (t_pos st))"
  proof (cases res)
    case (Inl e)
    then have "e = err" using a l by (simp add: tokenize_def)
    with c Inl show ?thesis by simp
  next
    case (Inr stf)
    then show ?thesis using a l c
      by (auto simp: tokenize_def Let_def split: if_splits prod.splits)
  qed
  with k sp
  show "\<exists>k st. k < fuel \<and> loop_state k py src (tokenize_init procs src) = Some st
              \<and> list_all2 same_processor procs (t_procs st)
              \<and> (run_round py src (t_pos st) (t_next st) (t_procs st) = Inl err
                  \<or> (\<exists>ps' oid'. run_round py src (t_pos st) (t_next st) (t_procs st) = Inr ([], ps', oid'))
                    \<and> t_pos st \<noteq> int (length src)
                    \<and> err = TokenizerError (''Unable to tokenize:'' @ [LF] @ makePointer src (t_pos st)))"
    by blast
next
  show "run_round py src pos oid ps = Inl err
      \<longleftrightarrow> (\<exists>i < length ps. process py (ps ! i) src pos (oid + i) = Inl err
              \<and> (\<forall>j < i. \<exists>q. process py (ps ! j) src pos (oid + j) = Inr ([], q)))"
    by (rule run_round_raises_iff)
next
  assume a: "k < fuel \<and> loop_state k py src (tokenize_init procs src) = Some st
        \<and> run_round py src (t_pos st) (t_next st) (t_procs st) = Inl err"
  then obtain n where n: "fuel = k + Suc n" by (metis less_imp_Suc_add add_Suc_right)
  from loop_state_fuel[of k py src "tokenize_init procs src" st "Suc n"] a
  have "tokenize_loop fuel py src (tokenize_init procs src) = Some (Inl err)"
    unfolding n by simp
  then show "tokenize fuel py procs src = Some (Inl err)" by (simp add: tokenize_def)
next
  assume a: "k < fuel \<and> loop_state k py src (tokenize_init procs src) = Some st
        \<and> run_round py src (t_pos st) (t_next st) (t_procs st) = Inr ([], ps', oid')
        \<and> t_pos st \<noteq> int (length src)"
  then obtain n where n: "fuel = k + Suc n" by (metis less_imp_Suc_add add_Suc_right)
  from loop_state_fuel[of k py src "tokenize_init procs src" st "Suc n"] a
  have "\<exists>stf. tokenize_loop fuel py src (tokenize_init procs src) = Some (Inr stf) \<and> t_pos stf = t_pos st"
    unfolding n by simp
  with a show "tokenize fuel py procs src
            = Some (Inl (TokenizerError (''Unable to tokenize:'' @ [LF] @ makePointer src (t_pos st))))"
    by (auto simp: tokenize_def Let_def)
next
  assume a: "(process py (IndentScopeProcessor ist) content offset oid :: error + ('v pairs \<times> 'v processor)) = Inl err
        \<and> (divider ist \<noteq> 0 \<or> level ist = 0 \<and> mode ist = None)"
  then have "(indent_process ist content offset oid :: error + ('v pairs \<times> indent_state)) = Inl err"
    by (auto split: sum.splits)
  from indent_process_error[OF this] a
  show "err = TokenizerError ''mixed indent''
          \<or> (\<exists>d. err = TokenizerError (''invalid indent multiply, should be '' @ str_int d))" by blast
qed

theorem tokenize_failure_report_witness:
  "(\<exists>k st. k < 5
       \<and> loop_state k no_python [LF, TAB, LF, SPC]
            (tokenize_init [NewLineProcessor, IndentScopeProcessor (IndentScopeProcessor_init False)]
               [LF, TAB, LF, SPC]) = Some st
       \<and> list_all2 same_processor
            [NewLineProcessor, IndentScopeProcessor (IndentScopeProcessor_init False)] (t_procs st)
       \<and> (run_round no_python [LF, TAB, LF, SPC] (t_pos st) (t_next st) (t_procs st)
             = Inl (TokenizerError ''mixed indent'')
           \<or> (\<exists>ps' oid'. run_round no_python [LF, TAB, LF, SPC] (t_pos st) (t_next st) (t_procs st)
                            = Inr ([], ps', oid'))
             \<and> t_pos st \<noteq> int (length [LF, TAB, LF, SPC])
             \<and> TokenizerError ''mixed indent''
                 = TokenizerError (''Unable to tokenize:'' @ [LF] @ makePointer [LF, TAB, LF, SPC] (t_pos st))))
   \<and> process no_python
         (IndentScopeProcessor \<lparr>allowMixed = False, level = 1, mode = Some 1, divider = 1\<rparr>)
         [LF, TAB, LF, SPC] 3 1 = Inl (TokenizerError ''mixed indent'')
   \<and> tokenize 1 no_python
         [IndentScopeProcessor \<lparr>allowMixed = False, level = 1, mode = Some 1, divider = 1\<rparr>] [LF, SPC]
       = Some (Inl (TokenizerError ''mixed indent''))
   \<and> tokenize 1 no_python [NewLineProcessor] ''?''
       = Some (Inl (TokenizerError (''Unable to tokenize:'' @ [LF] @ ''1:0: '' @ [LF] @ ''    ^'')))
   \<and> process no_python (IndentScopeProcessor \<lparr>allowMixed = False, level = 1, mode = Some 1, divider = 1\<rparr>)
         [LF, TAB, LF, SPC] 3 0 = Inl (TokenizerError ''mixed indent'')"
proof -
  have t1: "tokenize 5 no_python [NewLineProcessor, IndentScopeProcessor (IndentScopeProcessor_init False)]
     [LF, TAB, LF, SPC] = Some (Inl (TokenizerError ''mixed indent''))"
    by (simp add: run_defs)
  have r2: "run_round no_python [LF, TAB, LF, SPC] 3 0
       [NewLineProcessor, IndentScopeProcessor \<lparr>allowMixed = False, level = 1, mode = Some 1, divider = 1\<rparr>]
     = Inl (TokenizerError ''mixed indent'')"
    by (simp add: run_defs)
  have r3: "run_round no_python [LF, SPC] 0 0
       [IndentScopeProcessor \<lparr>allowMixed = False, level = 1, mode = Some 1, divider = 1\<rparr>]
     = Inl (TokenizerError ''mixed indent'')"
    by (simp add: run_defs)
  have r4: "run_round no_python ''?'' 0 0 [NewLineProcessor] = Inr ([], [NewLineProcessor], 1)"
    by (simp add: run_defs)
  have p4: "makePointer ''?'' 0 = ''1:0: '' @ [LF] @ ''    ^''"
    by code_simp
  have p5: "process no_python (IndentScopeProcessor \<lparr>allowMixed = False, level = 1, mode = Some 1, divider = 1\<rparr>)
         [LF, TAB, LF, SPC] 3 0 = Inl (TokenizerError ''mixed indent'')"
    by (simp add: run_defs)
  note w1 = tokenize_failure_report[where fuel = 5 and py = no_python
      and procs = "[NewLineProcessor, IndentScopeProcessor (IndentScopeProcessor_init False)]"
      and src = "[LF, TAB, LF, SPC]" and err = "TokenizerError ''mixed indent''", THEN conjunct1, THEN mp, OF t1]
  note w2 = tokenize_failure_report[where py = no_python and src = "[LF, TAB, LF, SPC]" and pos = 3 and oid = 0
      and ps = "[NewLineProcessor, IndentScopeProcessor \<lparr>allowMixed = False, level = 1, mode = Some 1, divider = 1\<rparr>]"
      and err = "TokenizerError ''mixed indent''", THEN conjunct2, THEN conjunct1, THEN iffD1, OF r2]
  note w3 = tokenize_failure_report[where fuel = 1 and py = no_python and k = 0
      and procs = "[IndentScopeProcessor \<lparr>allowMixed = False, level = 1, mode = Some 1, divider = 1\<rparr>]"
      and src = "[LF, SPC]" and err = "TokenizerError ''mixed indent''"
      and st = "tokenize_init [IndentScopeProcessor \<lparr>allowMixed = False, level = 1, mode = Some 1, divider = 1\<rparr>] [LF, SPC]",
      THEN conjunct2, THEN conjunct2, THEN conjunct1]
  note w4 = tokenize_failure_report[where fuel = 1 and py = no_python and k = 0
      and procs = "[NewLineProcessor]" and src = "''?''" and ps' = "[NewLineProcessor]" and oid' = 1
      and st = "tokenize_init [NewLineProcessor] ''?''",
      THEN conjunct2, THEN conjunct2, THEN conjunct2, THEN conjunct1]
  note w5 = tokenize_failure_report[where py = no_python
      and ist = "\<lparr>allowMixed = False, level = 1, mode = Some 1, divider = 1\<rparr>"
      and content = "[LF, TAB, LF, SPC]" and offset = 3 and oid = 0
      and err = "TokenizerError ''mixed indent''",
      THEN conjunct2, THEN conjunct2, THEN conjunct2, THEN conjunct2]
  have c3: "tokenize 1 no_python
         [IndentScopeProcessor \<lparr>allowMixed = False, level = 1, mode = Some 1, divider = 1\<rparr>] [LF, SPC]
       = Some (Inl (TokenizerError ''mixed indent''))"
    using w3 r3 by (simp add: tokenize_init_def)
  have c4: "tokenize 1 no_python [NewLineProcessor] ''?''
       = Some (Inl (TokenizerError (''Unable to tokenize:'' @ [LF] @ ''1:0: '' @ [LF] @ ''    ^'')))"
    using w4 r4 p4 by (simp add: tokenize_init_def)
  have c5: "process no_python (IndentScopeProcessor \<lparr>allowMixed = False, level = 1, mode = Some 1, divider = 1\<rparr>)
         [LF, TAB, LF, SPC] 3 0 = Inl (TokenizerError ''mixed indent'')
        \<and> (TokenizerError ''mixed indent'' = TokenizerError ''mixed indent''
          \<or> (\<exists>d. TokenizerError ''mixed indent'' = TokenizerError (''invalid indent multiply, should be '' @ str_int d)))"
    using w5 p5 by simp
  have c2: "process no_python
         (IndentScopeProcessor \<lparr>allowMixed = False, level = 1, mode = Some 1, divider = 1\<rparr>)
         [LF, TAB, LF, SPC] 3 1 = Inl (TokenizerError ''mixed indent'')"
    using w2 by (simp add: run_defs)
  show ?thesis
    apply (intro conjI)
        apply (rule w1)
       apply (rule c2)
      apply (rule c3)
     apply (rule c4)
    apply (rule c5[THEN conjunct1])
    done
qed


section \<open>Progress and termination\<close>

lemma indent_process_zero:
  assumes "(indent_process st content offset oid :: error + ('v pairs \<times> indent_state)) = Inr (ps, st')"
    "(t, 0) \<in> set ps" "0 \<le> divider st"
  shows "level st \<noteq> 0 \<and> st' = st\<lparr>level := 0\<rparr>"
proof (cases "reScope_match content (offset - 1)")
  case None
  then show ?thesis using assms by (simp add: indent_process_def)
next
  case (Some a)
  obtain e li where a: "a = (e, li)" by (cases a)
  have nl: "1 \<le> e - offset" using reScope_newLevel Some a by simp
  show ?thesis
  proof (cases "li = 3")
    case True
    then have em: "(indent_emit st 0 oid :: error + ('v pairs \<times> indent_state)) = Inr (ps, st')"
      using assms(1) Some a by (simp add: indent_process_def)
    then show ?thesis using assms(2)
      by (auto simp: indent_emit_def Let_def split: if_splits)
  next
    case False
    have "\<exists>st0. 0 \<le> divider st0 \<and> (indent_emit st0 (e - offset) oid :: error + ('v pairs \<times> indent_state)) = Inr (ps, st')"
    proof (cases "mode st")
      case None
      then have "(indent_emit (st\<lparr>mode := Some li, divider := e - offset\<rparr>) (e - offset) oid
                   :: error + ('v pairs \<times> indent_state)) = Inr (ps, st')"
        using assms(1) Some a False by (simp add: indent_process_def Let_def)
      then show ?thesis using nl by (intro exI[of _ "st\<lparr>mode := Some li, divider := e - offset\<rparr>"]) simp
    next
      case (Some k)
      then have "(indent_emit st (e - offset) oid :: error + ('v pairs \<times> indent_state)) = Inr (ps, st')"
        using assms(1) \<open>reScope_match content (offset - 1) = Some a\<close> a False
        by (simp add: indent_process_def Let_def split: if_splits)
      then show ?thesis using assms(3) by blast
    qed
    then obtain st0 where d: "0 \<le> divider st0"
      and em: "(indent_emit st0 (e - offset) oid :: error + ('v pairs \<times> indent_state)) = Inr (ps, st')" by blast
    from indent_emit_facts[OF em d] nl assms(2) have False by auto
    then show ?thesis ..
  qed
qed

lemma process_pair_consumed:
  assumes "advancing py p" "process py p content offset oid = Inr (pairs, p')" "(tok, c) \<in> set pairs"
  shows "case p of
           IndentScopeProcessor st \<Rightarrow>
             0 \<le> c \<and> (c = 0 \<longrightarrow> level st \<noteq> 0 \<and> p' = IndentScopeProcessor (st\<lparr>level := 0\<rparr>))
         | _ \<Rightarrow> 0 < c"
proof -
  have ne: "pairs \<noteq> []" using assms(3) by auto
  note pf = process_facts[OF assms(2,1)]
  show ?thesis
  proof (cases p)
    case (IndentScopeProcessor st)
    then obtain st' where ip: "indent_process st content offset oid = Inr (pairs, st')"
      and p': "p' = IndentScopeProcessor st'"
      using assms(2) by (auto split: sum.splits)
    have d: "0 \<le> divider st" using assms(1) IndentScopeProcessor by simp
    have c0: "0 \<le> c" using pf ne assms(3) by auto
    have "level st \<noteq> 0 \<and> st' = st\<lparr>level := 0\<rparr>" if "c = 0"
      using indent_process_zero[OF ip _ d, of tok] assms(3) that by simp
    then show ?thesis using IndentScopeProcessor c0 p' by simp
  next
    case NewLineProcessor
    then show ?thesis using pf ne assms(3) by auto
  next
    case (ClassicScopeProcessor s e)
    then show ?thesis using pf ne assms(3) by auto
  next
    case (CommentProcessor r)
    then show ?thesis using pf ne assms(3) by auto
  next
    case (ConsumingProcessor r)
    then show ?thesis using pf ne assms(3) by auto
  next
    case (ValueProcessor vp)
    then show ?thesis using pf ne assms(3) by auto
  next
    case (SequenceProcessor r)
    then show ?thesis using pf ne assms(3) by auto
  qed
qed

text \<open>
  C2, as stated: every pair reported by a processor has a consumed length greater than 0, so
  \<open>pos\<close> increases in every successful round. This fails: a line that starts with a
  non-whitespace character closes the open indent scopes with pairs of consumed length 0.
\<close>

theorem zero_consumed_counterexample: "(indent_process (IndentScopeProcessor_init False) [LF, SPC, SPC, CHR ''x'', LF, CHR ''y''] 1 0 :: error + (unit pairs \<times> indent_state))
   = Inr ([(Some (0, ScopeStartToken), 2)], \<lparr>allowMixed = False, level = 2, mode = Some 2, divider = 2\<rparr>)
  \<and> (indent_process \<lparr>allowMixed = False, level = 2, mode = Some 2, divider = 2\<rparr> [LF, SPC, SPC, CHR ''x'', LF, CHR ''y''] 5 1 :: error + (unit pairs \<times> indent_state))
   = Inr ([(Some (1, ScopeEndToken), 0)], \<lparr>allowMixed = False, level = 0, mode = Some 2, divider = 2\<rparr>)"
  by code_simp

text \<open>
  C2, amended: every pair reported by an advancing processor other than the indent processor
  has a consumed length greater than 0; a pair of the indent processor has a consumed length of
  at least 0, and 0 only when the processor was at a nonzero depth and is left at depth 0.
  In a successful round of advancing processors \<open>pos\<close> increases, or it stays and the number of
  indent processors at a nonzero depth decreases; the driving loop of \<open>tokenize\<close> terminates
  for every input.
\<close>

theorem progress_and_termination:
  "(advancing py p \<and> process py p content offset oid = Inr (pairs, p') \<and> (tok, c) \<in> set pairs
      \<longrightarrow> (case p of
             IndentScopeProcessor st \<Rightarrow>
               0 \<le> c \<and> (c = 0 \<longrightarrow> level st \<noteq> 0 \<and> p' = IndentScopeProcessor (st\<lparr>level := 0\<rparr>))
           | _ \<Rightarrow> 0 < c))
   \<and> (list_all (advancing py) procs \<and> run_round py src pos oid' procs = Inr (prs, procs', oid'')
        \<and> prs \<noteq> []
      \<longrightarrow> pos < snd (apply_pairs r pos prs)
          \<or> snd (apply_pairs r pos prs) = pos \<and> open_scopes procs' < open_scopes procs)
   \<and> (list_all (advancing py) procs \<longrightarrow> (\<exists>fuel res. tokenize fuel py procs src = Some res))"
  using process_pair_consumed[of py p content offset oid pairs p' tok c]
    round_variant[of py src pos oid' procs prs procs' oid'' r]
    tokenize_terminates[of py procs src]
  by blast

theorem progress_and_termination_witness:
  "process no_python (IndentScopeProcessor \<lparr>allowMixed = False, level = 2, mode = Some 2, divider = 2\<rparr>)
       [LF, SPC, SPC, CHR ''x'', LF, CHR ''y''] 5 1
     = Inr ([(Some (1, ScopeEndToken), 0)],
            IndentScopeProcessor (\<lparr>allowMixed = False, level = 2, mode = Some 2, divider = 2\<rparr>\<lparr>level := 0\<rparr>))
   \<and> run_round no_python [LF, SPC, SPC, CHR ''x'', LF, CHR ''y''] 5 0
         [NewLineProcessor, IndentScopeProcessor \<lparr>allowMixed = False, level = 2, mode = Some 2, divider = 2\<rparr>]
     = Inr ([(Some (1, ScopeEndToken), 0)],
            [NewLineProcessor, IndentScopeProcessor \<lparr>allowMixed = False, level = 0, mode = Some 2, divider = 2\<rparr>], 2)
   \<and> snd (apply_pairs (TokenizerResult_init [LF, SPC, SPC, CHR ''x'', LF, CHR ''y'']) 5
              [(Some (1, ScopeEndToken), 0)]) = 5
   \<and> open_scopes [NewLineProcessor, IndentScopeProcessor \<lparr>allowMixed = False, level = 0, mode = Some 2, divider = 2\<rparr> :: unit processor]
       < open_scopes [NewLineProcessor, IndentScopeProcessor \<lparr>allowMixed = False, level = 2, mode = Some 2, divider = 2\<rparr> :: unit processor]
   \<and> (\<exists>fuel res. tokenize fuel no_python
          [NewLineProcessor, IndentScopeProcessor \<lparr>allowMixed = False, level = 2, mode = Some 2, divider = 2\<rparr>]
          [LF, SPC, SPC, CHR ''x'', LF, CHR ''y''] = Some res)"
proof -
  have pr: "process no_python (IndentScopeProcessor \<lparr>allowMixed = False, level = 2, mode = Some 2, divider = 2\<rparr>)
       [LF, SPC, SPC, CHR ''x'', LF, CHR ''y''] 5 1
     = Inr ([(Some (1, ScopeEndToken), 0)],
            IndentScopeProcessor \<lparr>allowMixed = False, level = 0, mode = Some 2, divider = 2\<rparr>)"
    by (simp add: run_defs)
  have rr: "run_round no_python [LF, SPC, SPC, CHR ''x'', LF, CHR ''y''] 5 0
         [NewLineProcessor, IndentScopeProcessor \<lparr>allowMixed = False, level = 2, mode = Some 2, divider = 2\<rparr>]
     = Inr ([(Some (1, ScopeEndToken), 0)],
            [NewLineProcessor, IndentScopeProcessor \<lparr>allowMixed = False, level = 0, mode = Some 2, divider = 2\<rparr>], 2)"
    by (simp add: run_defs)
  have ad: "list_all (advancing no_python)
         [NewLineProcessor, IndentScopeProcessor \<lparr>allowMixed = False, level = 2, mode = Some 2, divider = 2\<rparr>]"
    by simp
  show ?thesis
    using progress_and_termination[of no_python
      "IndentScopeProcessor \<lparr>allowMixed = False, level = 2, mode = Some 2, divider = 2\<rparr>"
      "[LF, SPC, SPC, CHR ''x'', LF, CHR ''y'']" 5 1 "[(Some (1, ScopeEndToken), 0)]"
      "IndentScopeProcessor \<lparr>allowMixed = False, level = 0, mode = Some 2, divider = 2\<rparr>"
      "Some (1, ScopeEndToken)" 0
      "[NewLineProcessor, IndentScopeProcessor \<lparr>allowMixed = False, level = 2, mode = Some 2, divider = 2\<rparr>]"
      "[LF, SPC, SPC, CHR ''x'', LF, CHR ''y'']" 5 0 "[(Some (1, ScopeEndToken), 0)]"
      "[NewLineProcessor, IndentScopeProcessor \<lparr>allowMixed = False, level = 0, mode = Some 2, divider = 2\<rparr>]" 2
      "TokenizerResult_init [LF, SPC, SPC, CHR ''x'', LF, CHR ''y'']"] pr rr ad
    by simp
qed


section \<open>Coverage of the input\<close>

lemma partitions_le: "partitions a sp b \<Longrightarrow> a \<le> b"
proof (induction sp arbitrary: a)
  case Nil
  then show ?case by simp
next
  case (Cons x sp)
  obtain s c where x: "x = (s, c)" by (cases x)
  from Cons.prems x have "0 \<le> c" "partitions (a + c) sp b" by auto
  with Cons.IH[of "a + c"] show ?case by simp
qed

lemma partitions_append:
  "partitions a xs b \<Longrightarrow> partitions b ys c \<Longrightarrow> partitions a (xs @ ys) c"
  by (induction xs arbitrary: a) auto

lemma partitions_sum: "partitions a sp b \<Longrightarrow> a + sum_list (map snd sp) = b"
proof (induction sp arbitrary: a)
  case Nil
  then show ?case by simp
next
  case (Cons x sp)
  obtain s c where x: "x = (s, c)" by (cases x)
  from Cons.prems x have "partitions (a + c) sp b" by auto
  with Cons.IH[of "a + c"] x show ?case by simp
qed

lemma partitions_covering:
  "partitions a sp b \<Longrightarrow> length (covering sp k) = (if a \<le> k \<and> k < b then 1 else 0)"
proof (induction sp arbitrary: a)
  case Nil
  then show ?case by (simp add: covering_def)
next
  case (Cons x sp)
  obtain s c where x: "x = (s, c)" by (cases x)
  have p: "partitions (a + c) sp b" and s: "s = a" and c: "0 \<le> c" using Cons.prems x by auto
  from partitions_le[OF p] have le: "a + c \<le> b" .
  from Cons.IH[OF p] have "length (covering sp k) = (if a + c \<le> k \<and> k < b then 1 else 0)" .
  then show ?case using x s c le by (auto simp: covering_def)
qed

lemma pair_spans_partitions:
  "\<forall>(t, c) \<in> set pairs. 0 \<le> c \<Longrightarrow> partitions pos (pair_spans pos pairs) (pos + sum_list (map snd pairs))"
proof (induction pairs arbitrary: pos)
  case Nil
  then show ?case by simp
next
  case (Cons x pairs)
  obtain t c where x: "x = (t, c)" by (cases x)
  have "\<forall>(t, c) \<in> set pairs. 0 \<le> c" and c: "0 \<le> c" using Cons.prems x by auto
  from Cons.IH[OF this(1), of "pos + c"] c x show ?case by (simp add: add.assoc)
qed

lemma regex_negative:
  assumes "re_conforms py" "re_match py r src pos = Some m" "m_end m - pos < 0"
  shows "m_end m = int (length src) \<and> re_match py r src (int (length src)) \<noteq> None"
proof -
  have b: "int (py_pos src pos) \<le> m_end m" "m_end m \<le> int (length src)"
    and e: "re_match py r src pos = re_match py r src (int (py_pos src pos))"
    using assms(1,2) unfolding re_conforms_def by blast+
  have "int (py_pos src pos) < pos" using b(1) assms(3) by simp
  then have p: "py_pos src pos = length src" by (auto simp: py_pos_def split: if_splits)
  from e have "re_match py r src pos = re_match py r src (int (length src))" unfolding p .
  with assms(2) have "re_match py r src (int (length src)) = Some m" by simp
  moreover have "m_end m = int (length src)" using b p by simp
  ultimately show ?thesis by simp
qed

lemma regex_at_end:
  assumes "re_conforms py" "re_match py r src (int (length src)) = Some m"
  shows "m_end m - int (length src) = 0"
proof -
  have "int (py_pos src (int (length src))) \<le> m_end m" "m_end m \<le> int (length src)"
    using assms unfolding re_conforms_def by blast+
  then show ?thesis by (simp add: py_pos_def)
qed

lemma indent_emit_pairs:
  "(indent_emit st n oid :: error + ('v pairs \<times> indent_state)) = Inr (ps, st')
     \<Longrightarrow> \<forall>(t, c) \<in> set ps. c = n"
  by (auto simp: indent_emit_def Let_def split: if_splits)

lemma indent_pairs_nonneg:
  assumes "(indent_process st content offset oid :: error + ('v pairs \<times> indent_state)) = Inr (ps, st')"
  shows "\<forall>(t, c) \<in> set ps. 0 \<le> c"
proof (cases "reScope_match content (offset - 1)")
  case None
  then show ?thesis using assms by (simp add: indent_process_def)
next
  case (Some a)
  obtain e li where a: "a = (e, li)" by (cases a)
  have nl: "1 \<le> e - offset" using reScope_newLevel Some a by simp
  from assms Some a obtain st0 n where
    "(indent_emit st0 n oid :: error + ('v pairs \<times> indent_state)) = Inr (ps, st')" "n = 0 \<or> n = e - offset"
    by (auto simp: indent_process_def Let_def split: if_splits)
  with indent_emit_pairs[OF this(1)] nl show ?thesis by auto
qed

lemma indent_at_end:
  "(indent_process st src (int (length src)) oid :: error + ('v pairs \<times> indent_state)) = Inr ([], st)"
proof -
  have "reScope_match src (int (length src) - 1) = None"
  proof (cases "reScope_match src (int (length src) - 1)")
    case None
    then show ?thesis .
  next
    case (Some a)
    obtain e li where a: "a = (e, li)" by (cases a)
    from reScope_bounds[OF Some[unfolded a]] have "False"
      by (auto simp: py_pos_def split: if_splits)
    then show ?thesis ..
  qed
  then show ?thesis by (simp add: indent_process_def)
qed

lemma newline_at_end: "reNewLine_match src (int (length src)) = None"
  by (simp add: reNewLine_match_def py_pos_def)

lemma classic_at_end:
  "classic_match s e src (int (length src))
     = (if s = [] \<or> e = [] then Some (int (length src), if s = [] then 1 else 2) else None)"
  by (auto simp: classic_match_def py_pos_def Let_def)

lemma process_at_end:
  assumes "re_conforms py" "process py p src (int (length src)) oid = Inr (pairs, p')"
  shows "p' = p \<and> (\<forall>(t, c) \<in> set pairs. c = 0) \<and> (matches_at_end py src p \<longrightarrow> pairs \<noteq> [])"
proof (cases p)
  case NewLineProcessor
  then show ?thesis using assms(2) by (simp add: newline_at_end)
next
  case (ClassicScopeProcessor s e)
  then show ?thesis using assms(2) by (auto simp: classic_at_end split: if_splits)
next
  case (IndentScopeProcessor st)
  show ?thesis using assms(2) unfolding IndentScopeProcessor by (auto simp: indent_at_end)
next
  case (CommentProcessor r)
  then show ?thesis using assms(2) regex_at_end[OF assms(1), of r src]
    by (auto split: option.splits)
next
  case (ConsumingProcessor r)
  then show ?thesis using assms(2) regex_at_end[OF assms(1), of r src]
    by (auto split: option.splits)
next
  case (ValueProcessor vp)
  then show ?thesis using assms(2) regex_at_end[OF assms(1), of "vregex vp" src]
    by (auto simp: value_process_def Let_def split: option.splits sum.splits if_splits)
next
  case (SequenceProcessor r)
  then show ?thesis using assms(2) regex_at_end[OF assms(1), of r src]
    by (auto split: option.splits)
qed

lemma classic_negative:
  assumes "classic_match s e src pos = Some (en, li)" "en - pos < 0"
  shows "en = int (length src) \<and> (s = [] \<or> e = [])"
proof -
  have en: "en = int (py_pos src pos) + int (length s) \<and> take (length s) (drop (py_pos src pos) src) = s
          \<or> en = int (py_pos src pos) + int (length e) \<and> take (length e) (drop (py_pos src pos) src) = e"
    using assms(1) by (auto simp: classic_match_def Let_def split: if_splits)
  then have "int (py_pos src pos) < pos" using assms(2) by auto
  then have p: "py_pos src pos = length src" by (auto simp: py_pos_def split: if_splits)
  show ?thesis using en p by auto
qed

lemma process_negative:
  assumes "re_conforms py" "process py p src pos oid = Inr (pairs, p')" "(t, c) \<in> set pairs" "c < 0"
  shows "pairs = [(t, c)] \<and> pos + c = int (length src) \<and> p' = p \<and> matches_at_end py src p"
proof (cases p)
  case NewLineProcessor
  show ?thesis
  proof (cases "reNewLine_match src pos")
    case None
    then show ?thesis using assms NewLineProcessor by simp
  next
    case (Some e)
    from py_pos_le[OF reNewLine_bounds[OF Some, THEN conjunct1] reNewLine_bounds[OF Some, THEN conjunct2]]
    show ?thesis using assms NewLineProcessor Some by auto
  qed
next
  case (ClassicScopeProcessor s e)
  show ?thesis
  proof (cases "classic_match s e src pos")
    case None
    then show ?thesis using assms ClassicScopeProcessor by simp
  next
    case (Some a)
    obtain en li where a: "a = (en, li)" by (cases a)
    have "en - pos < 0" using assms ClassicScopeProcessor Some a by auto
    from classic_negative[OF Some[unfolded a] this]
    show ?thesis using assms ClassicScopeProcessor Some a by auto
  qed
next
  case (IndentScopeProcessor st)
  then obtain st' where "indent_process st src pos oid = Inr (pairs, st')"
    using assms(2) by (auto split: sum.splits)
  from indent_pairs_nonneg[OF this] assms(3,4) show ?thesis by auto
next
  case (CommentProcessor r)
  show ?thesis
  proof (cases "re_match py r src pos")
    case None
    then show ?thesis using assms CommentProcessor by simp
  next
    case (Some m)
    have "m_end m - pos < 0" using assms CommentProcessor Some by auto
    from regex_negative[OF assms(1) Some this]
    show ?thesis using assms CommentProcessor Some by auto
  qed
next
  case (ConsumingProcessor r)
  show ?thesis
  proof (cases "re_match py r src pos")
    case None
    then show ?thesis using assms ConsumingProcessor by simp
  next
    case (Some m)
    have "m_end m - pos < 0" using assms ConsumingProcessor Some by auto
    from regex_negative[OF assms(1) Some this]
    show ?thesis using assms ConsumingProcessor Some by auto
  qed
next
  case (ValueProcessor vp)
  then have vp: "value_process py vp src pos oid = Inr pairs" and p': "p' = p"
    using assms(2) by (auto split: sum.splits)
  show ?thesis
  proof (cases "re_match py (vregex vp) src pos")
    case None
    then show ?thesis using vp assms(3) by (simp add: value_process_def)
  next
    case (Some m)
    have pr: "pairs = [(t, c)] \<and> c = m_end m - pos" using vp Some assms(3)
      by (auto simp: value_process_def Let_def split: option.splits sum.splits if_splits)
    then have "m_end m - pos < 0" using assms(4) by simp
    from regex_negative[OF assms(1) Some this]
    show ?thesis using pr p' ValueProcessor by auto
  qed
next
  case (SequenceProcessor r)
  show ?thesis
  proof (cases "re_match py r src pos")
    case None
    then show ?thesis using assms SequenceProcessor by simp
  next
    case (Some m)
    have "m_end m - pos < 0" using assms SequenceProcessor Some by auto
    from regex_negative[OF assms(1) Some this]
    show ?thesis using assms SequenceProcessor Some by auto
  qed
qed

lemma run_round_at_end:
  assumes "re_conforms py" "run_round py src (int (length src)) oid procs = Inr (pairs, procs', oid')"
  shows "procs' = procs \<and> (\<forall>(t, c) \<in> set pairs. c = 0)
       \<and> ((\<exists>p \<in> set procs. matches_at_end py src p) \<longrightarrow> pairs \<noteq> [])"
  using assms(2)
proof (induction procs arbitrary: oid pairs procs' oid')
  case Nil
  then show ?case by simp
next
  case (Cons p ps)
  from Cons.prems obtain prs p' where pr: "process py p src (int (length src)) oid = Inr (prs, p')"
    by (auto split: sum.splits)
  note pe = process_at_end[OF assms(1) pr]
  show ?case
  proof (cases "prs = []")
    case True
    with Cons.prems pr obtain ps' where
      rr: "run_round py src (int (length src)) (Suc oid) ps = Inr (pairs, ps', oid')"
      and eq: "procs' = p' # ps'"
      by (auto split: sum.splits)
    from Cons.IH[OF rr] pe True eq show ?thesis by auto
  next
    case False
    with Cons.prems pr have "pairs = prs" "procs' = p' # ps" by auto
    with pe False show ?thesis by auto
  qed
qed

lemma loop_at_end_never_succeeds:
  assumes "re_conforms py"
  shows "t_pos st = int (length src) \<Longrightarrow> \<exists>p \<in> set (t_procs st). matches_at_end py src p
     \<Longrightarrow> tokenize_loop fuel py src st \<noteq> Some (Inr stf)"
proof (induction fuel arbitrary: st)
  case 0
  then show ?case by simp
next
  case (Suc n)
  show ?case
  proof (cases "run_round py src (t_pos st) (t_next st) (t_procs st)")
    case (Inl err)
    then show ?thesis by simp
  next
    case (Inr a)
    obtain pairs ps' oid' where a: "a = (pairs, ps', oid')" by (cases a)
    obtain r' pos' where ap: "apply_pairs (t_result st) (t_pos st) pairs = (r', pos')"
      by (cases "apply_pairs (t_result st) (t_pos st) pairs")
    note re = run_round_at_end[OF assms Inr[unfolded a Suc.prems(1)]]
    have ne: "pairs \<noteq> []" using re Suc.prems(2) by blast
    have "pos' = t_pos st + sum_list (map snd pairs)" using apply_pairs_pos[of "t_result st" "t_pos st" pairs] ap by simp
    then have pos': "pos' = int (length src)" using re sum_list_zero[of pairs] Suc.prems(1) by simp
    have ps': "ps' = t_procs st" using re by simp
    let ?st' = "\<lparr>t_pos = pos', t_result = r', t_procs = ps', t_next = oid'\<rparr>"
    have "tokenize_loop n py src ?st' \<noteq> Some (Inr stf)"
      by (rule Suc.IH) (use pos' ps' Suc.prems(2) in simp_all)
    then show ?thesis using Inr a ap ne by simp
  qed
qed

lemma run_round_negative:
  assumes "re_conforms py" "run_round py src pos oid procs = Inr (pairs, procs', oid')"
    "(t, c) \<in> set pairs" "c < 0"
  shows "pos + sum_list (map snd pairs) = int (length src) \<and> (\<exists>p \<in> set procs'. matches_at_end py src p)"
  using assms(2)
proof (induction procs arbitrary: oid procs' oid')
  case Nil
  then show ?case using assms(3) by simp
next
  case (Cons p ps)
  from Cons.prems obtain prs p' where pr: "process py p src pos oid = Inr (prs, p')"
    by (auto split: sum.splits)
  show ?case
  proof (cases "prs = []")
    case True
    with Cons.prems pr obtain ps' where
      rr: "run_round py src pos (Suc oid) ps = Inr (pairs, ps', oid')" and eq: "procs' = p' # ps'"
      by (auto split: sum.splits)
    from Cons.IH[OF rr] eq show ?thesis by auto
  next
    case False
    with Cons.prems pr have eq: "pairs = prs" "procs' = p' # ps" by auto
    from process_negative[OF assms(1) pr assms(3)[unfolded eq(1)] assms(4)] eq
    show ?thesis by auto
  qed
qed

lemma loop_spans_partition:
  assumes "re_conforms py"
  shows "tokenize_loop fuel py src st = Some (Inr stf)
     \<Longrightarrow> partitions (t_pos st) (consumed_spans fuel py src st) (t_pos stf)"
proof (induction fuel arbitrary: st)
  case 0
  then show ?case by simp
next
  case (Suc n)
  show ?case
  proof (cases "run_round py src (t_pos st) (t_next st) (t_procs st)")
    case (Inl err)
    then show ?thesis using Suc.prems by simp
  next
    case (Inr a)
    obtain pairs ps' oid' where a: "a = (pairs, ps', oid')" by (cases a)
    obtain r' pos' where ap: "apply_pairs (t_result st) (t_pos st) pairs = (r', pos')"
      by (cases "apply_pairs (t_result st) (t_pos st) pairs")
    have pos': "pos' = t_pos st + sum_list (map snd pairs)"
      using apply_pairs_pos[of "t_result st" "t_pos st" pairs] ap by simp
    let ?st' = "\<lparr>t_pos = pos', t_result = r', t_procs = ps', t_next = oid'\<rparr>"
    show ?thesis
    proof (cases "pairs = []")
      case True
      then show ?thesis using Suc.prems Inr a ap by auto
    next
      case False
      then have lp: "tokenize_loop n py src ?st' = Some (Inr stf)"
        using Suc.prems Inr a ap by simp
      have nonneg: "\<forall>(t, c) \<in> set pairs. 0 \<le> c"
      proof (rule ccontr)
        assume "\<not> (\<forall>(t, c) \<in> set pairs. 0 \<le> c)"
        then obtain t c where tc: "(t, c) \<in> set pairs" "c < 0" by auto
        from run_round_negative[OF assms Inr[unfolded a] tc]
        have "t_pos ?st' = int (length src)" "\<exists>p \<in> set (t_procs ?st'). matches_at_end py src p"
          using pos' by simp_all
        from loop_at_end_never_succeeds[OF assms this] lp show False by blast
      qed
      from pair_spans_partitions[OF nonneg, of "t_pos st"]
      have "partitions (t_pos st) (pair_spans (t_pos st) pairs) pos'" using pos' by simp
      moreover from Suc.IH[OF lp] have "partitions pos' (consumed_spans n py src ?st') (t_pos stf)" by simp
      ultimately have "partitions (t_pos st) (pair_spans (t_pos st) pairs @ consumed_spans n py src ?st') (t_pos stf)"
        by (rule partitions_append)
      then show ?thesis using Inr a ap False by simp
    qed
  qed
qed

lemma py_pos_idem: "py_pos content (int (py_pos content pos)) = py_pos content pos"
  by (simp add: py_pos_def)

lemma x_python_conforms: "re_conforms x_python"
proof -
  have "int (length (takeWhile (\<lambda>c. c = CHR ''x'') (drop (py_pos content pos) content)))
          + int (py_pos content pos) \<le> int (length content)" for content pos
  proof -
    have "length (takeWhile (\<lambda>c. c = CHR ''x'') (drop (py_pos content pos) content))
            \<le> length (drop (py_pos content pos) content)" by (rule length_takeWhile_le)
    moreover have "py_pos content pos \<le> length content" by (simp add: py_pos_def)
    ultimately show ?thesis by simp
  qed
  then show ?thesis
    by (auto simp: re_conforms_def x_python_def Let_def py_pos_idem add.commute)
qed

lemma chained_append: "chained a xs b \<Longrightarrow> chained b ys c \<Longrightarrow> chained a (xs @ ys) c"
  by (induction xs arbitrary: a) auto

lemma chained_sum: "chained a sp b \<Longrightarrow> a + sum_list (map snd sp) = b"
proof (induction sp arbitrary: a)
  case Nil
  then show ?case by simp
next
  case (Cons x sp)
  obtain s c where x: "x = (s, c)" by (cases x)
  from Cons.prems x have "chained (a + c) sp b" by auto
  with Cons.IH[of "a + c"] x show ?case by simp
qed

lemma pair_spans_chained: "chained pos (pair_spans pos pairs) (pos + sum_list (map snd pairs))"
proof (induction pairs arbitrary: pos)
  case Nil
  then show ?case by simp
next
  case (Cons x pairs)
  obtain t c where x: "x = (t, c)" by (cases x)
  from Cons.IH[of "pos + c"] x show ?case by (simp add: add.assoc)
qed

lemma loop_spans_chained:
  "tokenize_loop fuel py src st = Some (Inr stf)
     \<Longrightarrow> chained (t_pos st) (consumed_spans fuel py src st) (t_pos stf)"
proof (induction fuel arbitrary: st)
  case 0
  then show ?case by simp
next
  case (Suc n)
  show ?case
  proof (cases "run_round py src (t_pos st) (t_next st) (t_procs st)")
    case (Inl err)
    then show ?thesis using Suc.prems by simp
  next
    case (Inr a)
    obtain pairs ps' oid' where a: "a = (pairs, ps', oid')" by (cases a)
    obtain r' pos' where ap: "apply_pairs (t_result st) (t_pos st) pairs = (r', pos')"
      by (cases "apply_pairs (t_result st) (t_pos st) pairs")
    have pos': "pos' = t_pos st + sum_list (map snd pairs)"
      using apply_pairs_pos[of "t_result st" "t_pos st" pairs] ap by simp
    let ?st' = "\<lparr>t_pos = pos', t_result = r', t_procs = ps', t_next = oid'\<rparr>"
    show ?thesis
    proof (cases "pairs = []")
      case True
      then show ?thesis using Suc.prems Inr a ap by auto
    next
      case False
      then have lp: "tokenize_loop n py src ?st' = Some (Inr stf)"
        using Suc.prems Inr a ap by simp
      from pair_spans_chained[of "t_pos st" pairs]
      have "chained (t_pos st) (pair_spans (t_pos st) pairs) pos'" using pos' by simp
      moreover from Suc.IH[OF lp] have "chained pos' (consumed_spans n py src ?st') (t_pos stf)" by simp
      ultimately have "chained (t_pos st) (pair_spans (t_pos st) pairs @ consumed_spans n py src ?st') (t_pos stf)"
        by (rule chained_append)
      then show ?thesis using Inr a ap False by simp
    qed
  qed
qed

text \<open>
  C1. If \<open>tokenize\<close> returns successfully, the consumed spans applied across all matched
  steps partition the input exactly: they are contiguous from offset 0, no character is
  covered twice, no character is skipped, and the total of all consumed lengths equals the
  length of the text.

  The spans of a run that returns are chained from 0 to the length of the source and their
  lengths add up to it, whatever the \<open>re\<close> module does. With an \<open>re\<close> module that behaves as
  documented (\<open>re_conforms\<close>) they partition the source and every offset of the source lies in
  exactly one span: a consumed length below 0 can only arise beyond the end of the source, from
  a processor that then reports a match of length 0 at the end in every further round, and
  such a run never returns.
\<close>

theorem consumed_spans_partition_input:
  "(tokenize fuel py procs src = Some (Inr r)
     \<longrightarrow> chained 0 (consumed_spans fuel py src (tokenize_init procs src)) (int (length src))
       \<and> sum_list (map snd (consumed_spans fuel py src (tokenize_init procs src))) = int (length src))
   \<and> (re_conforms py \<and> tokenize fuel py procs src = Some (Inr r)
     \<longrightarrow> partitions 0 (consumed_spans fuel py src (tokenize_init procs src)) (int (length src))
       \<and> (\<forall>k. 0 \<le> k \<and> k < int (length src)
              \<longrightarrow> length (covering (consumed_spans fuel py src (tokenize_init procs src)) k) = 1))"
proof (intro conjI impI)
  assume a: "tokenize fuel py procs src = Some (Inr r)"
  then obtain stf where l: "tokenize_loop fuel py src (tokenize_init procs src) = Some (Inr stf)"
    and e: "t_pos stf = int (length src)"
    by (auto simp: tokenize_def Let_def split: option.splits sum.splits if_splits)
  from loop_spans_chained[OF l] e
  show c: "chained 0 (consumed_spans fuel py src (tokenize_init procs src)) (int (length src))"
    by (simp add: tokenize_init_def)
  from chained_sum[OF c]
  show "sum_list (map snd (consumed_spans fuel py src (tokenize_init procs src))) = int (length src)"
    by simp
next
  assume a: "re_conforms py \<and> tokenize fuel py procs src = Some (Inr r)"
  then obtain stf where l: "tokenize_loop fuel py src (tokenize_init procs src) = Some (Inr stf)"
    and e: "t_pos stf = int (length src)"
    by (auto simp: tokenize_def Let_def split: option.splits sum.splits if_splits)
  from loop_spans_partition[OF a[THEN conjunct1] l] e
  show p: "partitions 0 (consumed_spans fuel py src (tokenize_init procs src)) (int (length src))"
    by (simp add: tokenize_init_def)
  from partitions_covering[OF p]
  show "\<forall>k. 0 \<le> k \<and> k < int (length src)
              \<longrightarrow> length (covering (consumed_spans fuel py src (tokenize_init procs src)) k) = 1"
    by simp
qed

theorem consumed_spans_partition_input_witness:
  "consumed_spans 6 no_python [LF, SPC, LF, SPC, SPC, SPC, CHR ''?'', CHR ''?'', CHR ''?'']
       (tokenize_init [NewLineProcessor, IndentScopeProcessor (IndentScopeProcessor_init False)]
          [LF, SPC, LF, SPC, SPC, SPC, CHR ''?'', CHR ''?'', CHR ''?''])
     = [(0, 1), (1, 1), (2, 1), (3, 3), (6, 3)]
   \<and> chained 0 [(0, 1), (1, 1), (2, 1), (3, 3), (6, 3)] 9
   \<and> partitions 0 [(0, 1), (1, 1), (2, 1), (3, 3), (6, 3)] 9
   \<and> sum_list (map snd [(0, 1), (1, 1), (2, 1), (3, 3), (6, 3 :: int)]) = (9 :: int)
   \<and> length (covering [(0, 1), (1, 1), (2, 1), (3, 3), (6, 3)] 0) = 1
   \<and> length (covering [(0, 1), (1, 1), (2, 1), (3, 3), (6, 3)] 5) = 1
   \<and> length (covering [(0, 1), (1, 1), (2, 1), (3, 3), (6, 3)] 8) = 1
   \<and> consumed_spans 8 x_python [LF, SPC, CHR ''x'', LF, SPC, SPC, SPC, CHR ''x'', CHR ''x'', CHR ''x'', CHR ''x'']
       (tokenize_init [NewLineProcessor, IndentScopeProcessor (IndentScopeProcessor_init False),
                       ConsumingProcessor_init ''x'']
          [LF, SPC, CHR ''x'', LF, SPC, SPC, SPC, CHR ''x'', CHR ''x'', CHR ''x'', CHR ''x''])
     = [(0, 1), (1, 1), (2, 1), (3, 1), (4, 3), (7, 3), (10, 1)]
   \<and> partitions 0 [(0, 1), (1, 1), (2, 1), (3, 1), (4, 3), (7, 3), (10, 1)] 11"
proof -
  have c: "re_conforms no_python" by (simp add: re_conforms_def no_python_def)
  have "\<exists>r. tokenize 6 no_python [NewLineProcessor, IndentScopeProcessor (IndentScopeProcessor_init False)]
          [LF, SPC, LF, SPC, SPC, SPC, CHR ''?'', CHR ''?'', CHR ''?''] = Some (Inr r)"
    by (simp add: run_defs)
  then obtain r where t: "tokenize 6 no_python [NewLineProcessor, IndentScopeProcessor (IndentScopeProcessor_init False)]
          [LF, SPC, LF, SPC, SPC, SPC, CHR ''?'', CHR ''?'', CHR ''?''] = Some (Inr r)" by blast
  have s: "consumed_spans 6 no_python [LF, SPC, LF, SPC, SPC, SPC, CHR ''?'', CHR ''?'', CHR ''?'']
       (tokenize_init [NewLineProcessor, IndentScopeProcessor (IndentScopeProcessor_init False)]
          [LF, SPC, LF, SPC, SPC, SPC, CHR ''?'', CHR ''?'', CHR ''?''])
     = [(0, 1), (1, 1), (2, 1), (3, 3), (6, 3)]"
    by (simp add: run_defs)
  have "\<exists>r. tokenize 8 x_python [NewLineProcessor, IndentScopeProcessor (IndentScopeProcessor_init False),
                       ConsumingProcessor_init ''x'']
          [LF, SPC, CHR ''x'', LF, SPC, SPC, SPC, CHR ''x'', CHR ''x'', CHR ''x'', CHR ''x''] = Some (Inr r)"
    by (simp add: run_defs x_python_def ConsumingProcessor_init_def re_compile_def)
  then obtain r' where t': "tokenize 8 x_python [NewLineProcessor, IndentScopeProcessor (IndentScopeProcessor_init False),
                       ConsumingProcessor_init ''x'']
          [LF, SPC, CHR ''x'', LF, SPC, SPC, SPC, CHR ''x'', CHR ''x'', CHR ''x'', CHR ''x''] = Some (Inr r')"
    by blast
  have s': "consumed_spans 8 x_python [LF, SPC, CHR ''x'', LF, SPC, SPC, SPC, CHR ''x'', CHR ''x'', CHR ''x'', CHR ''x'']
       (tokenize_init [NewLineProcessor, IndentScopeProcessor (IndentScopeProcessor_init False),
                       ConsumingProcessor_init ''x'']
          [LF, SPC, CHR ''x'', LF, SPC, SPC, SPC, CHR ''x'', CHR ''x'', CHR ''x'', CHR ''x''])
     = [(0, 1), (1, 1), (2, 1), (3, 1), (4, 3), (7, 3), (10, 1)]"
    by (simp add: run_defs x_python_def ConsumingProcessor_init_def re_compile_def)
  note w = consumed_spans_partition_input[of 6 no_python
      "[NewLineProcessor, IndentScopeProcessor (IndentScopeProcessor_init False)]"
      "[LF, SPC, LF, SPC, SPC, SPC, CHR ''?'', CHR ''?'', CHR ''?'']" r, THEN conjunct2, THEN mp, OF conjI, OF c t]
  note v = consumed_spans_partition_input[of 6 no_python
      "[NewLineProcessor, IndentScopeProcessor (IndentScopeProcessor_init False)]"
      "[LF, SPC, LF, SPC, SPC, SPC, CHR ''?'', CHR ''?'', CHR ''?'']" r, THEN conjunct1, THEN mp, OF t]
  note w' = consumed_spans_partition_input[of 8 x_python
      "[NewLineProcessor, IndentScopeProcessor (IndentScopeProcessor_init False), ConsumingProcessor_init ''x'']"
      "[LF, SPC, CHR ''x'', LF, SPC, SPC, SPC, CHR ''x'', CHR ''x'', CHR ''x'', CHR ''x'']" r',
      THEN conjunct2, THEN mp, OF conjI, OF x_python_conforms t']
  show ?thesis using v w w' unfolding s s' by simp
qed

text \<open>
  The spans are the consumed lengths the processors report. For a change of several indent
  units the indent processor reports the whole new depth once per unit, so the spans of such a
  step reach beyond the indent: on the first input of the example above the span from 6 to 9
  covers three characters that no processor was asked about, and the tokens do not depend on
  the last two of them.
\<close>

lemma unexamined_text_ignored:
  "\<exists>r. tokenize 6 no_python [NewLineProcessor, IndentScopeProcessor (IndentScopeProcessor_init False)]
          ([LF, SPC, LF, SPC, SPC, SPC] @ [CHR ''?'', b, c]) = Some (Inr r)
     \<and> tokens r = [(0, EndOfLineToken), (2, ScopeStartToken), (3, EndOfLineToken),
                   (5, ScopeStartToken), (5, ScopeStartToken), (8, ScopeEndToken),
                   (9, ScopeEndToken), (10, ScopeEndToken), (11, EndOfFileToken)]"
  by (simp add: run_defs)

end
